theory Spec2Isabelle
  imports Main "HOL-Library.Word"
begin

unbundle bit_operations_syntax

section \<open>Runtime panics\<close>

text \<open>
  Go aborts the running operation with a panic. \<open>InvalidBitPosition\<close> is the explicit
  \<^verbatim>\<open>panic("bitmap: invalid bit position")\<close> of \<^verbatim>\<open>Bitmap.Set\<close>; \<open>RuntimeError\<close> stands
  for the two panics the Go runtime itself raises inside \<^verbatim>\<open>Bitmap.mark\<close>: an index out of
  range and a negative shift amount (the language does not fix which of the two is
  reported when both apply, so they share one constructor).
\<close>

datatype panic = InvalidBitPosition | RuntimeError

section \<open>Bitmap (internal/rt/stackmap.go)\<close>

text \<open>
  \<^verbatim>\<open>type Bitmap struct { N int; B []byte }\<close>. A byte is an 8-bit word. Go's \<^verbatim>\<open>int\<close> is
  modelled as \<open>int\<close>: \<open>N\<close> only ever counts stored bits, and a slice of \<open>2 ^ 60\<close> bytes
  cannot be allocated, so the 64-bit range is never left. The narrowing conversion to
  \<^verbatim>\<open>int32\<close> in \<^verbatim>\<open>Build\<close> is modelled with its wrap-around.
\<close>

type_synonym byte = "8 word"

text \<open>
  \<^verbatim>\<open>type StackMap struct { N int32; L int32; B [1]byte }\<close>: the header and the packed bits
  that follow it. The record is declared ahead of \<open>Bitmap\<close>, whose field names it
  shares, so that the plain names \<open>N\<close> and \<open>B\<close> below are the bitmap's and the stack
  map's are written \<open>StackMap.N\<close>, \<open>StackMap.L\<close> and \<open>StackMap.B\<close>. \<open>StackMap.B\<close> holds
  the \<open>nb\<close> bytes that \<^verbatim>\<open>Build\<close> copies behind the header.
\<close>

record StackMap =
  N :: "32 word"
  L :: "32 word"
  B :: "byte list"

record Bitmap =
  N :: int
  B :: "byte list"

text \<open>Go's integer division and remainder truncate towards zero.\<close>

definition go_quot :: "int \<Rightarrow> int \<Rightarrow> int" where
  "go_quot x y = (if x < 0 then - ((- x) div y) else x div y)"

definition go_rem :: "int \<Rightarrow> int \<Rightarrow> int" where
  "go_rem x y = x - y * go_quot x y"

definition Bitmap_grow :: "Bitmap \<Rightarrow> Bitmap" where
  "Bitmap_grow self =
     (if N self \<ge> int (length (B self)) * 8 then self\<lparr>B := B self @ [0]\<rparr> else self)"

text \<open>
  \<^verbatim>\<open>self.B[i / 8] |= 1 << (i % 8)\<close> and \<^verbatim>\<open>self.B[i / 8] &^= 1 << (i % 8)\<close>: the index
  is checked against the slice, and a negative shift count panics.
\<close>

definition Bitmap_mark :: "int \<Rightarrow> int \<Rightarrow> Bitmap \<Rightarrow> panic + Bitmap" where
  "Bitmap_mark i bv self =
     (let k = go_quot i 8; s = go_rem i 8 in
      if k < 0 \<or> k \<ge> int (length (B self)) \<or> s < 0 then Inl RuntimeError
      else if bv \<noteq> 0
        then Inr (self\<lparr>B := (B self)[nat k := (B self ! nat k) OR push_bit (nat s) 1]\<rparr>)
        else Inr (self\<lparr>B := (B self)[nat k := (B self ! nat k) AND NOT (push_bit (nat s) 1)]\<rparr>))"

definition Bitmap_Set :: "int \<Rightarrow> int \<Rightarrow> Bitmap \<Rightarrow> panic + Bitmap" where
  "Bitmap_Set i bv self =
     (if i \<ge> N self then Inl InvalidBitPosition else Bitmap_mark i bv self)"

definition Bitmap_Append :: "int \<Rightarrow> Bitmap \<Rightarrow> panic + Bitmap" where
  "Bitmap_Append bv self =
     (let s1 = Bitmap_grow self in
      case Bitmap_mark (N s1) bv s1 of
        Inl e \<Rightarrow> Inl e
      | Inr s2 \<Rightarrow> Inr (s2\<lparr>N := N s2 + 1\<rparr>))"

text \<open>\<^verbatim>\<open>for i := 0; i < n; i++ { self.Append(bv) }\<close>, started at \<open>i = 0\<close>.\<close>

function AppendMany_loop :: "int \<Rightarrow> int \<Rightarrow> int \<Rightarrow> Bitmap \<Rightarrow> panic + Bitmap" where
  "AppendMany_loop i n bv self =
     (if i < n
      then (case Bitmap_Append bv self of
              Inl e \<Rightarrow> Inl e
            | Inr s1 \<Rightarrow> AppendMany_loop (i + 1) n bv s1)
      else Inr self)"
  by pat_completeness auto
termination
  by (relation "measure (\<lambda>(i, n, bv, self). nat (n - i))") auto

definition Bitmap_AppendMany :: "int \<Rightarrow> int \<Rightarrow> Bitmap \<Rightarrow> panic + Bitmap" where
  "Bitmap_AppendMany n bv self = AppendMany_loop 0 n bv self"

text \<open>The zero value of the struct: no bits, a nil slice.\<close>

definition Bitmap_empty :: Bitmap where
  "Bitmap_empty = \<lparr>N = 0, B = []\<rparr>"

text \<open>
  Bit \<open>i\<close> of a packed byte sequence, in the layout \<^verbatim>\<open>mark\<close> writes: byte \<open>i div 8\<close>,
  bit \<open>i mod 8\<close>.
\<close>

definition bit_at :: "byte list \<Rightarrow> nat \<Rightarrow> bool" where
  "bit_at bs i = bit (bs ! (i div 8)) (i mod 8)"

text \<open>The data-model invariant of a bitmap: \<open>0 \<le> N \<le> 8 * len(B)\<close>.\<close>

definition Bitmap_wf :: "Bitmap \<Rightarrow> bool" where
  "Bitmap_wf self = (0 \<le> N self \<and> N self \<le> 8 * int (length (B self)))"

section \<open>StackMapBuilder (internal/rt/stackmap.go)\<close>

record StackMapBuilder =
  b :: Bitmap

text \<open>
  \<^verbatim>\<open>Build\<close> allocates header and tail in one block, stores \<^verbatim>\<open>p.N, p.L = 1, int32(self.b.N)\<close>
  and copies the \<open>nb = len(self.b.B)\<close> bytes of the bitmap. The conversion to
  \<^verbatim>\<open>int32\<close> keeps the low 32 bits.
\<close>

definition StackMapBuilder_Build :: "StackMapBuilder \<Rightarrow> StackMap" where
  "StackMapBuilder_Build self =
     \<lparr>StackMap.N = 1, StackMap.L = word_of_int (N (b self)), StackMap.B = B (b self)\<rparr>"

definition StackMapBuilder_AddField :: "bool \<Rightarrow> StackMapBuilder \<Rightarrow> panic + StackMapBuilder" where
  "StackMapBuilder_AddField ptr self =
     (case (if ptr then Bitmap_Append 1 (b self) else Bitmap_Append 0 (b self)) of
        Inl e \<Rightarrow> Inl e
      | Inr s1 \<Rightarrow> Inr (self\<lparr>b := s1\<rparr>))"

definition StackMapBuilder_AddFields :: "int \<Rightarrow> bool \<Rightarrow> StackMapBuilder \<Rightarrow> panic + StackMapBuilder" where
  "StackMapBuilder_AddFields n ptr self =
     (case (if ptr then Bitmap_AppendMany n 1 (b self) else Bitmap_AppendMany n 0 (b self)) of
        Inl e \<Rightarrow> Inl e
      | Inr s1 \<Rightarrow> Inr (self\<lparr>b := s1\<rparr>))"

text \<open>The zero value \<^verbatim>\<open>StackMapBuilder{}\<close>: a fresh builder.\<close>

definition StackMapBuilder_fresh :: StackMapBuilder where
  "StackMapBuilder_fresh = \<lparr>b = Bitmap_empty\<rparr>"

text \<open>
  Call sequences on one receiver. A panic ends the sequence, as it ends the goroutine.
\<close>

datatype BitmapCall = Append int | AppendMany int int

fun Bitmap_call :: "BitmapCall \<Rightarrow> Bitmap \<Rightarrow> panic + Bitmap" where
  "Bitmap_call (Append bv) self = Bitmap_Append bv self"
| "Bitmap_call (AppendMany n bv) self = Bitmap_AppendMany n bv self"

fun Bitmap_calls :: "BitmapCall list \<Rightarrow> Bitmap \<Rightarrow> panic + Bitmap" where
  "Bitmap_calls [] self = Inr self"
| "Bitmap_calls (c # cs) self =
     (case Bitmap_call c self of Inl e \<Rightarrow> Inl e | Inr s1 \<Rightarrow> Bitmap_calls cs s1)"

text \<open>The number of bits a call appends: the loop of \<^verbatim>\<open>AppendMany\<close> runs \<open>max n 0\<close> times.\<close>

fun BitmapCall_bits :: "BitmapCall \<Rightarrow> nat" where
  "BitmapCall_bits (Append bv) = 1"
| "BitmapCall_bits (AppendMany n bv) = nat n"

datatype BuilderCall = AddField bool | AddFields int bool

fun Builder_call :: "BuilderCall \<Rightarrow> StackMapBuilder \<Rightarrow> panic + StackMapBuilder" where
  "Builder_call (AddField ptr) self = StackMapBuilder_AddField ptr self"
| "Builder_call (AddFields n ptr) self = StackMapBuilder_AddFields n ptr self"

fun Builder_calls :: "BuilderCall list \<Rightarrow> StackMapBuilder \<Rightarrow> panic + StackMapBuilder" where
  "Builder_calls [] self = Inr self"
| "Builder_calls (c # cs) self =
     (case Builder_call c self of Inl e \<Rightarrow> Inl e | Inr s1 \<Rightarrow> Builder_calls cs s1)"

fun BuilderCall_bits :: "BuilderCall \<Rightarrow> nat" where
  "BuilderCall_bits (AddField ptr) = 1"
| "BuilderCall_bits (AddFields n ptr) = nat n"

text \<open>\<^verbatim>\<open>Build()\<close> after a sequence of calls on a builder.\<close>

definition Build_after :: "BuilderCall list \<Rightarrow> StackMapBuilder \<Rightarrow> panic + StackMap" where
  "Build_after cs self =
     (case Builder_calls cs self of Inl e \<Rightarrow> Inl e | Inr s1 \<Rightarrow> Inr (StackMapBuilder_Build s1))"

text \<open>
  The bits a call appends, in order, and the bit sequence a bitmap stores: \<open>N\<close> counts
  the bits, the slice has one byte for every eight bits begun, and bit \<open>i\<close> of the slice is
  the \<open>i\<close>-th bit.
\<close>

fun BitmapCall_seq :: "BitmapCall \<Rightarrow> bool list" where
  "BitmapCall_seq (Append bv) = [bv \<noteq> 0]"
| "BitmapCall_seq (AppendMany n bv) = replicate (nat n) (bv \<noteq> 0)"

fun BuilderCall_seq :: "BuilderCall \<Rightarrow> bool list" where
  "BuilderCall_seq (AddField ptr) = [ptr]"
| "BuilderCall_seq (AddFields n ptr) = replicate (nat n) ptr"

definition Bitmap_holds :: "Bitmap \<Rightarrow> bool list \<Rightarrow> bool" where
  "Bitmap_holds self bs =
     (N self = int (length bs) \<and> int (length (B self)) = (int (length bs) + 7) div 8
      \<and> (\<forall>i<length bs. bit_at (B self) i = bs ! i))"

section \<open>The SSA graph TDCE works on\<close>

text \<open>
  The register type, the node interfaces, the basic block and the graph are declared in
  other files of package \<^verbatim>\<open>ssa\<close>; \<^verbatim>\<open>TDCE.Apply\<close> uses them through \<^verbatim>\<open>r.Kind()\<close>, \<^verbatim>\<open>K_zero\<close>,
  \<^verbatim>\<open>r.Zero()\<close>, \<^verbatim>\<open>Definitions()\<close>, \<^verbatim>\<open>Usages()\<close>, \<^verbatim>\<open>bb.Phi\<close>, \<^verbatim>\<open>bb.Ins\<close>, \<^verbatim>\<open>bb.Term\<close> and
  \<^verbatim>\<open>cfg.PostOrder\<close> only.

  The register type is a parameter: any type \<open>'r\<close> with the three operations the pass
  calls. What the specification says of them (the constructor yields the zero sentinel)
  is the predicate \<open>Reg_ok\<close>, assumed only where a proof needs it.
\<close>

record 'r RegType =
  Kind :: "'r \<Rightarrow> nat"
  K_zero :: nat
  Zero :: "'r \<Rightarrow> 'r"

definition Reg_ok :: "'r RegType \<Rightarrow> bool" where
  "Reg_ok R = (\<forall>r. Kind R (Zero R r) = K_zero R)"

text \<open>
  Modelled from the spec: the node types are declared in other files of the package. A
  node is the register slots that \<^verbatim>\<open>Definitions()\<close> and \<^verbatim>\<open>Usages()\<close> point into, in the
  order the two methods list them. A Phi node has both methods (the pass calls them
  without a type test); an instruction or a terminator has each of them only if it
  implements \<^verbatim>\<open>IrDefinitions\<close>, \<^verbatim>\<open>IrUsages\<close>: \<open>None\<close> is a failed type assertion. Every
  slot is storage of its own: no two entries of the lists point to the same slot, so a
  write through a declared slot changes that slot only, and no used slot.
\<close>

record 'r IrPhi =
  PhiDefinitions :: "'r list"
  PhiUsages :: "'r list"

record 'r IrNode =
  Definitions :: "'r list option"
  Usages :: "'r list option"

record 'r BasicBlock =
  Phi :: "'r IrPhi list"
  Ins :: "'r IrNode list"
  Term :: "'r IrNode"

text \<open>
  Modelled from the spec: a Phi node selects a value and declares the register that
  receives it (its result), so the list its \<^verbatim>\<open>Definitions()\<close> returns is never empty.
  The pass itself runs on any list; the predicate is assumed only where a statement is
  about what a Phi node declares.
\<close>

definition Phi_declares :: "'r BasicBlock \<Rightarrow> bool" where
  "Phi_declares bb = (\<forall>v\<in>set (Phi bb). PhiDefinitions v \<noteq> [])"

text \<open>
  Modelled from the spec: \<^verbatim>\<open>CFG.PostOrder\<close> is declared in another file of the package. It
  visits every block of the graph exactly once, in an order fixed by the terminators'
  control edges, which the pass never changes. The graph is therefore the list of its
  blocks in that order, and a traversal is a left-to-right pass over the list.
\<close>

type_synonym 'r CFG = "'r BasicBlock list"

section \<open>TDCE.Apply\<close>

subsection \<open>Phase 1: mark all the definitions\<close>

text \<open>\<^verbatim>\<open>for _, r := range defs { decl[*r] = struct{}{} }\<close>\<close>

definition mark_definitions :: "'r list \<Rightarrow> 'r set \<Rightarrow> 'r set" where
  "mark_definitions rs decl = fold insert rs decl"

definition mark_node_definitions :: "'r IrNode \<Rightarrow> 'r set \<Rightarrow> 'r set" where
  "mark_node_definitions v decl =
     (case Definitions v of None \<Rightarrow> decl | Some rs \<Rightarrow> mark_definitions rs decl)"

definition Phase1_block :: "'r BasicBlock \<Rightarrow> 'r set \<Rightarrow> 'r set" where
  "Phase1_block bb decl =
     (let d1 = fold (\<lambda>v. mark_definitions (PhiDefinitions v)) (Phi bb) decl;
          d2 = fold mark_node_definitions (Ins bb) d1
      in mark_node_definitions (Term bb) d2)"

subsection \<open>Phase 2: find all register usages\<close>

text \<open>\<^verbatim>\<open>for _, r := range use { delete(decl, *r) }\<close>\<close>

definition mark_usages :: "'r list \<Rightarrow> 'r set \<Rightarrow> 'r set" where
  "mark_usages rs decl = fold Set.remove rs decl"

definition mark_node_usages :: "'r IrNode \<Rightarrow> 'r set \<Rightarrow> 'r set" where
  "mark_node_usages v decl =
     (case Usages v of None \<Rightarrow> decl | Some rs \<Rightarrow> mark_usages rs decl)"

definition Phase2_block :: "'r BasicBlock \<Rightarrow> 'r set \<Rightarrow> 'r set" where
  "Phase2_block bb decl =
     (let d1 = fold (\<lambda>v. mark_usages (PhiUsages v)) (Phi bb) decl;
          d2 = fold mark_node_usages (Ins bb) d1
      in mark_node_usages (Term bb) d2)"

subsection \<open>Phase 3: remove all unused declarations\<close>

text \<open>
  A loop that rewrites the elements it visits and threads the flag \<^verbatim>\<open>done\<close> through.
\<close>

fun walk :: "('a \<Rightarrow> bool \<Rightarrow> 'a \<times> bool) \<Rightarrow> 'a list \<Rightarrow> bool \<Rightarrow> 'a list \<times> bool" where
  "walk f [] done = ([], done)"
| "walk f (x # xs) done =
     (case f x done of (x', d1) \<Rightarrow>
        (case walk f xs d1 of (xs', d2) \<Rightarrow> (x' # xs', d2)))"

text \<open>
  \<^verbatim>\<open>if _, ok = decl[*r]; ok && r.Kind() != K_zero { *r, done = r.Zero(), false }\<close>
\<close>

definition zero_slot :: "'r RegType \<Rightarrow> 'r set \<Rightarrow> 'r \<Rightarrow> bool \<Rightarrow> 'r \<times> bool" where
  "zero_slot R decl r done =
     (if r \<in> decl \<and> Kind R r \<noteq> K_zero R then (Zero R r, False) else (r, done))"

definition zero_phi :: "'r RegType \<Rightarrow> 'r set \<Rightarrow> 'r IrPhi \<Rightarrow> bool \<Rightarrow> 'r IrPhi \<times> bool" where
  "zero_phi R decl v done =
     (case walk (zero_slot R decl) (PhiDefinitions v) done of
        (rs, d1) \<Rightarrow> (v\<lparr>PhiDefinitions := rs\<rparr>, d1))"

definition zero_node :: "'r RegType \<Rightarrow> 'r set \<Rightarrow> 'r IrNode \<Rightarrow> bool \<Rightarrow> 'r IrNode \<times> bool" where
  "zero_node R decl v done =
     (case Definitions v of
        None \<Rightarrow> (v, done)
      | Some defs \<Rightarrow>
          (case walk (zero_slot R decl) defs done of
             (rs, d1) \<Rightarrow> (v\<lparr>Definitions := Some rs\<rparr>, d1)))"

definition Phase3_block ::
  "'r RegType \<Rightarrow> 'r set \<Rightarrow> 'r BasicBlock \<Rightarrow> bool \<Rightarrow> 'r BasicBlock \<times> bool" where
  "Phase3_block R decl bb done =
     (case walk (zero_phi R decl) (Phi bb) done of (phi, d1) \<Rightarrow>
        (case walk (zero_node R decl) (Ins bb) d1 of (ins, d2) \<Rightarrow>
           (case zero_node R decl (Term bb) d2 of (term, d3) \<Rightarrow>
              (\<lparr>Phi = phi, Ins = ins, Term = term\<rparr>, d3))))"

subsection \<open>Phase 4: remove the entire definition if it is all zeros\<close>

text \<open>
  \<^verbatim>\<open>for _, r := range rr { if r.Kind() != K_zero { append(..., v); break } }\<close>: the entry is
  appended once if the scan meets a register of another kind, and not at all otherwise.
\<close>

fun scan_live :: "'r RegType \<Rightarrow> 'r list \<Rightarrow> bool" where
  "scan_live R [] = False"
| "scan_live R (r # rs) = (if Kind R r \<noteq> K_zero R then True else scan_live R rs)"

definition keep_phi :: "'r RegType \<Rightarrow> 'r IrPhi \<Rightarrow> bool" where
  "keep_phi R v = scan_live R (PhiDefinitions v)"

definition keep_ins :: "'r RegType \<Rightarrow> 'r IrNode \<Rightarrow> bool" where
  "keep_ins R v =
     (case Definitions v of
        None \<Rightarrow> True
      | Some rr \<Rightarrow> if length rr = 0 then True else scan_live R rr)"

definition Phase4_block :: "'r RegType \<Rightarrow> 'r BasicBlock \<Rightarrow> 'r BasicBlock" where
  "Phase4_block R bb =
     bb\<lparr>Phi := filter (keep_phi R) (Phi bb), Ins := filter (keep_ins R) (Ins bb)\<rparr>"

subsection \<open>The outer loop\<close>

text \<open>
  One pass of the body of \<^verbatim>\<open>for { ... }\<close>: the graph it leaves and the value of \<^verbatim>\<open>done\<close>.
\<close>

definition TDCE_round :: "'r RegType \<Rightarrow> 'r CFG \<Rightarrow> 'r CFG \<times> bool" where
  "TDCE_round R cfg =
     (let decl = fold Phase1_block cfg {};
          dead = fold Phase2_block cfg decl
      in case walk (Phase3_block R dead) cfg True of
           (cfg1, done) \<Rightarrow> (map (Phase4_block R) cfg1, done))"

text \<open>
  The loop has no bound of its own, so it is a partial function: \<open>None\<close> is a run that
  never reaches \<^verbatim>\<open>break\<close>.
\<close>

partial_function (option) TDCE_Apply :: "'r RegType \<Rightarrow> 'r CFG \<Rightarrow> 'r CFG option" where
  "TDCE_Apply R cfg =
     (case TDCE_round R cfg of
        (cfg1, done) \<Rightarrow> if done then Some cfg1 else TDCE_Apply R cfg1)"

subsection \<open>What a graph declares and reads\<close>

definition node_defs :: "'r IrNode \<Rightarrow> 'r list" where
  "node_defs v = (case Definitions v of None \<Rightarrow> [] | Some rs \<Rightarrow> rs)"

definition node_uses :: "'r IrNode \<Rightarrow> 'r list" where
  "node_uses v = (case Usages v of None \<Rightarrow> [] | Some rs \<Rightarrow> rs)"

definition block_defs :: "'r BasicBlock \<Rightarrow> 'r list" where
  "block_defs bb =
     concat (map PhiDefinitions (Phi bb)) @ concat (map node_defs (Ins bb)) @ node_defs (Term bb)"

definition block_uses :: "'r BasicBlock \<Rightarrow> 'r list" where
  "block_uses bb =
     concat (map PhiUsages (Phi bb)) @ concat (map node_uses (Ins bb)) @ node_uses (Term bb)"

definition cfg_defs :: "'r CFG \<Rightarrow> 'r list" where
  "cfg_defs cfg = concat (map block_defs cfg)"

definition cfg_uses :: "'r CFG \<Rightarrow> 'r list" where
  "cfg_uses cfg = concat (map block_uses cfg)"

text \<open>The declared slots that do not hold a register of the zero kind, and their number.\<close>

definition live_defs :: "'r RegType \<Rightarrow> 'r CFG \<Rightarrow> 'r list" where
  "live_defs R cfg = filter (\<lambda>r. Kind R r \<noteq> K_zero R) (cfg_defs cfg)"

definition live_count :: "'r RegType \<Rightarrow> 'r CFG \<Rightarrow> nat" where
  "live_count R cfg = length (live_defs R cfg)"

text \<open>A graph in which phase 4 finds nothing to drop.\<close>

definition compacted :: "'r RegType \<Rightarrow> 'r CFG \<Rightarrow> bool" where
  "compacted R cfg = (map (Phase4_block R) cfg = cfg)"

text \<open>
  The body of the loop run \<open>k\<close> times, whatever \<^verbatim>\<open>done\<close> says: the graph at the start of
  round \<open>k + 1\<close>, if the loop gets there.
\<close>

fun rounds :: "'r RegType \<Rightarrow> nat \<Rightarrow> 'r CFG \<Rightarrow> 'r CFG" where
  "rounds R 0 cfg = cfg"
| "rounds R (Suc k) cfg = rounds R k (fst (TDCE_round R cfg))"

subsection \<open>Notions for the proofs\<close>

text \<open>
  The test of phase 3 on one declared slot and the value the slot holds afterwards; the
  set phase 2 leaves in \<^verbatim>\<open>decl\<close>; the graph phase 3 leaves.
\<close>

definition neutralized :: "'r RegType \<Rightarrow> 'r set \<Rightarrow> 'r \<Rightarrow> bool" where
  "neutralized R dead r = (r \<in> dead \<and> Kind R r \<noteq> K_zero R)"

definition rewritten :: "'r RegType \<Rightarrow> 'r set \<Rightarrow> 'r \<Rightarrow> 'r" where
  "rewritten R dead r = (if neutralized R dead r then Zero R r else r)"

definition dead_set :: "'r CFG \<Rightarrow> 'r set" where
  "dead_set cfg = set (cfg_defs cfg) - set (cfg_uses cfg)"

definition Phase3 :: "'r RegType \<Rightarrow> 'r set \<Rightarrow> 'r CFG \<Rightarrow> 'r CFG" where
  "Phase3 R dead cfg = fst (walk (Phase3_block R dead) cfg True)"

text \<open>
  The loop leaves in round \<open>k + 1\<close>: that round ends with \<^verbatim>\<open>done\<close> set, and no earlier
  round does.
\<close>

definition exits_at :: "'r RegType \<Rightarrow> 'r CFG \<Rightarrow> nat \<Rightarrow> bool" where
  "exits_at R cfg k =
     (snd (TDCE_round R (rounds R k cfg)) \<and> (\<forall>j<k. \<not> snd (TDCE_round R (rounds R j cfg))))"

subsection \<open>Example graphs\<close>

text \<open>
  A register type for examples: registers are numbers, \<open>0\<close> is the zero register and the
  only one of the zero kind.
\<close>

definition example_regs :: "nat RegType" where
  "example_regs = \<lparr>Kind = (\<lambda>r. if r = 0 then 1 else 4), K_zero = 1, Zero = (\<lambda>r. 0)\<rparr>"

text \<open>
  One block, \<^verbatim>\<open>[r11 = const 5; r12 = add r11, r11; return r11]\<close>: \<open>r12\<close> is never read.
\<close>

definition scenario_A :: "nat CFG" where
  "scenario_A =
     [\<lparr>Phi = [],
       Ins = [\<lparr>Definitions = Some [11], Usages = None\<rparr>,
              \<lparr>Definitions = Some [12], Usages = Some [11, 11]\<rparr>],
       Term = \<lparr>Definitions = None, Usages = Some [11]\<rparr>\<rparr>]"

text \<open>
  One block whose second instruction reads \<open>r11\<close> and writes its result to the zero
  register: \<^verbatim>\<open>[r11 = const 5; zero = neg r11; return]\<close>.
\<close>

definition prezeroed :: "nat CFG" where
  "prezeroed =
     [\<lparr>Phi = [],
       Ins = [\<lparr>Definitions = Some [11], Usages = None\<rparr>,
              \<lparr>Definitions = Some [0], Usages = Some [11]\<rparr>],
       Term = \<lparr>Definitions = None, Usages = None\<rparr>\<rparr>]"

section \<open>Link and SetLinker\<close>

text \<open>
  \<^verbatim>\<open>var linker Linker\<close> is the one piece of state: an interface value, \<open>None\<close> when nil and
  otherwise the \<^verbatim>\<open>Link\<close> method of the value it holds. \<^verbatim>\<open>link_emu\<close> is defined elsewhere in
  the package and is a parameter of \<open>Link\<close>.
\<close>

type_synonym ('p, 'e) Linker = "'p \<Rightarrow> 'e"

record ('p, 'e) encoder_state =
  linker :: "('p, 'e) Linker option"

text \<open>The state at process start: the variable holds its zero value, nil.\<close>

definition encoder_init :: "('p, 'e) encoder_state" where
  "encoder_init = \<lparr>linker = None\<rparr>"

definition Link :: "('p \<Rightarrow> 'e) \<Rightarrow> ('p, 'e) encoder_state \<Rightarrow> 'p \<Rightarrow> 'e" where
  "Link link_emu st p =
     (case linker st of None \<Rightarrow> link_emu p | Some l \<Rightarrow> l p)"

definition SetLinker :: "('p, 'e) Linker option \<Rightarrow> ('p, 'e) encoder_state \<Rightarrow> ('p, 'e) encoder_state" where
  "SetLinker v st = st\<lparr>linker := v\<rparr>"

text \<open>A sequence of \<^verbatim>\<open>SetLinker\<close> calls, in order.\<close>

definition SetLinker_calls ::
  "('p, 'e) Linker option list \<Rightarrow> ('p, 'e) encoder_state \<Rightarrow> ('p, 'e) encoder_state" where
  "SetLinker_calls vs st = fold SetLinker vs st"

section \<open>Bitmap: proofs\<close>

subsection \<open>Division, remainder and single bits\<close>

lemma go_quot_nonneg: "0 \<le> i \<Longrightarrow> go_quot i 8 = i div 8"
  by (simp add: go_quot_def)

lemma go_rem_nonneg: "0 \<le> i \<Longrightarrow> go_rem i 8 = i mod 8"
  by (simp add: go_rem_def go_quot_def minus_mult_div_eq_mod)

lemma go_neg_panics: "i < 0 \<Longrightarrow> go_quot i 8 < 0 \<or> go_rem i 8 < 0"
  unfolding go_rem_def go_quot_def by (simp; presburger)

lemma Bitmap_mark_neg: "i < 0 \<Longrightarrow> Bitmap_mark i bv self = Inl RuntimeError"
  using go_neg_panics [of i] by (auto simp: Bitmap_mark_def Let_def)

lemma Bitmap_mark_ok:
  assumes "0 \<le> i" and "i < 8 * int (length (B self))"
  shows "Bitmap_mark i bv self =
           Inr (self\<lparr>B := (B self)[nat i div 8 :=
                  (if bv \<noteq> 0 then (B self ! (nat i div 8)) OR push_bit (nat i mod 8) 1
                   else (B self ! (nat i div 8)) AND NOT (push_bit (nat i mod 8) 1))]\<rparr>)"
proof -
  have q: "nat (i div 8) = nat i div 8" using assms(1) by (simp add: nat_div_distrib)
  have r: "nat (i mod 8) = nat i mod 8" using assms(1) by (simp add: nat_mod_distrib)
  have k: "i div 8 < int (length (B self))" using assms by linarith
  have k0: "0 \<le> i div 8" using assms(1) by simp
  have s0: "\<not> i mod 8 < 0" by simp
  show ?thesis
    using assms k k0 s0 by (simp add: Bitmap_mark_def Let_def go_quot_nonneg go_rem_nonneg q r)
qed

lemma bit_mask8: "bit (2 ^ n :: byte) (j mod 8) \<longleftrightarrow> (j mod 8 = n)"
  by (auto simp: bit_simps)

lemma same_byte_same_bit: "j div 8 = i div 8 \<Longrightarrow> (j mod 8 = i mod 8) = (j = (i::nat))"
  by (metis div_mult_mod_eq)

lemma bit_at_set:
  assumes "i < 8 * length bs"
  shows "bit_at (bs[i div 8 := (bs ! (i div 8)) OR push_bit (i mod 8) 1]) j
           = (if j = i then True else bit_at bs j)"
proof (cases "j div 8 = i div 8")
  case True
  have "i div 8 < length bs" using assms by simp
  with True show ?thesis
    using same_byte_same_bit [OF True]
    by (simp add: bit_at_def bit_or_iff bit_mask8)
next
  case False
  then show ?thesis by (auto simp: bit_at_def)
qed

lemma bit_at_clear:
  assumes "i < 8 * length bs"
  shows "bit_at (bs[i div 8 := (bs ! (i div 8)) AND NOT (push_bit (i mod 8) 1)]) j
           = (if j = i then False else bit_at bs j)"
proof (cases "j div 8 = i div 8")
  case True
  have "i div 8 < length bs" using assms by simp
  with True show ?thesis
    using same_byte_same_bit [OF True]
    by (simp add: bit_at_def bit_and_iff bit_not_iff bit_mask8)
next
  case False
  then show ?thesis by (auto simp: bit_at_def)
qed

lemma Bitmap_mark_Inr:
  assumes "0 \<le> i" and "i < 8 * int (length (B self))"
  shows "\<exists>s1. Bitmap_mark i bv self = Inr s1 \<and> N s1 = N self
            \<and> length (B s1) = length (B self)
            \<and> (\<forall>j. bit_at (B s1) j = (if j = nat i then bv \<noteq> 0 else bit_at (B self) j))"
proof -
  have lt: "nat i < 8 * length (B self)" using assms by linarith
  show ?thesis
    using bit_at_set [OF lt] bit_at_clear [OF lt]
    by (simp add: Bitmap_mark_ok [OF assms])
qed

lemma Bitmap_Append_Inr:
  assumes "Bitmap_wf self"
  shows "\<exists>s1. Bitmap_Append bv self = Inr s1 \<and> N s1 = N self + 1
            \<and> length (B s1) = (if N self = 8 * int (length (B self)) then length (B self) + 1 else length (B self))
            \<and> (\<forall>j. j \<noteq> nat (N self) \<longrightarrow> j < 8 * length (B self) \<longrightarrow> bit_at (B s1) j = bit_at (B self) j)
            \<and> bit_at (B s1) (nat (N self)) = (bv \<noteq> 0)"
proof -
  let ?g = "Bitmap_grow self"
  have gN: "N ?g = N self" by (simp add: Bitmap_grow_def)
  have gl: "length (B ?g) = (if N self = 8 * int (length (B self)) then length (B self) + 1 else length (B self))"
    using assms by (auto simp: Bitmap_grow_def Bitmap_wf_def)
  have gb: "j < 8 * length (B self) \<Longrightarrow> bit_at (B ?g) j = bit_at (B self) j" for j
  proof -
    assume "j < 8 * length (B self)"
    then have "j div 8 < length (B self)" by simp
    then show ?thesis by (simp add: Bitmap_grow_def bit_at_def nth_append)
  qed
  have r0: "0 \<le> N ?g" using assms by (simp add: gN Bitmap_wf_def)
  have r1: "N ?g < 8 * int (length (B ?g))"
    using assms by (auto simp: gN gl Bitmap_wf_def)
  from Bitmap_mark_Inr [OF r0 r1, of bv] obtain s1 where
    m: "Bitmap_mark (N ?g) bv ?g = Inr s1" and mN: "N s1 = N ?g"
    and ml: "length (B s1) = length (B ?g)"
    and mb: "\<And>j. bit_at (B s1) j = (if j = nat (N ?g) then bv \<noteq> 0 else bit_at (B ?g) j)"
    by blast
  have "Bitmap_Append bv self = Inr (s1\<lparr>N := N s1 + 1\<rparr>)"
    by (simp add: Bitmap_Append_def Let_def m)
  then show ?thesis
    using mN ml mb gb by (simp add: gN gl)
qed


lemma Bitmap_holds_wf: "Bitmap_holds self bs \<Longrightarrow> Bitmap_wf self"
  unfolding Bitmap_holds_def Bitmap_wf_def by linarith

lemma Bitmap_holds_empty: "Bitmap_holds Bitmap_empty []"
  by (simp add: Bitmap_holds_def Bitmap_empty_def)

lemma Bitmap_holds_Append:
  assumes "Bitmap_holds self bs"
  shows "\<exists>s1. Bitmap_Append bv self = Inr s1 \<and> Bitmap_holds s1 (bs @ [bv \<noteq> 0])"
proof -
  have n: "N self = int (length bs)" and l: "int (length (B self)) = (int (length bs) + 7) div 8"
    and bits: "\<And>i. i < length bs \<Longrightarrow> bit_at (B self) i = bs ! i"
    using assms by (simp_all add: Bitmap_holds_def)
  from Bitmap_Append_Inr [OF Bitmap_holds_wf [OF assms], of bv] obtain s1 where
    a: "Bitmap_Append bv self = Inr s1" and aN: "N s1 = N self + 1"
    and al: "length (B s1) = (if N self = 8 * int (length (B self)) then length (B self) + 1 else length (B self))"
    and ab: "\<And>j. j \<noteq> nat (N self) \<Longrightarrow> j < 8 * length (B self) \<Longrightarrow> bit_at (B s1) j = bit_at (B self) j"
    and an: "bit_at (B s1) (nat (N self)) = (bv \<noteq> 0)"
    by blast
  have l': "int (length (B s1)) = (int (length (bs @ [bv \<noteq> 0])) + 7) div 8"
    using al l n by (simp split: if_splits; presburger)
  have cap: "length bs \<le> 8 * length (B self)" using l by linarith
  have b': "bit_at (B s1) i = (bs @ [bv \<noteq> 0]) ! i" if "i < length (bs @ [bv \<noteq> 0])" for i
  proof (cases "i < length bs")
    case True
    then have "bit_at (B s1) i = bit_at (B self) i" using ab [of i] n cap by simp
    then show ?thesis using True bits by (simp add: nth_append)
  next
    case False
    then have "i = length bs" using that by simp
    then show ?thesis using an n by (simp add: nth_append)
  qed
  show ?thesis using a aN n l' b' by (simp add: Bitmap_holds_def)
qed

lemma Bitmap_holds_AppendMany_loop:
  "Bitmap_holds self bs \<Longrightarrow>
     \<exists>s1. AppendMany_loop i n bv self = Inr s1
        \<and> Bitmap_holds s1 (bs @ replicate (nat (n - i)) (bv \<noteq> 0))"
proof (induction i n bv self arbitrary: bs rule: AppendMany_loop.induct)
  case (1 i n bv self)
  show ?case
  proof (cases "i < n")
    case True
    from Bitmap_holds_Append [OF "1.prems", of bv] obtain s1 where
      a: "Bitmap_Append bv self = Inr s1" and h: "Bitmap_holds s1 (bs @ [bv \<noteq> 0])" by blast
    from "1.IH" [OF True a h] obtain s2 where
      r: "AppendMany_loop (i + 1) n bv s1 = Inr s2"
      and h2: "Bitmap_holds s2 ((bs @ [bv \<noteq> 0]) @ replicate (nat (n - (i + 1))) (bv \<noteq> 0))" by blast
    have "nat (n - i) = Suc (nat (n - (i + 1)))" using True by linarith
    then have "bs @ replicate (nat (n - i)) (bv \<noteq> 0)
                 = (bs @ [bv \<noteq> 0]) @ replicate (nat (n - (i + 1))) (bv \<noteq> 0)" by simp
    with h2 r a True show ?thesis by (subst AppendMany_loop.simps) simp
  next
    case False
    with "1.prems" show ?thesis by (subst AppendMany_loop.simps) simp
  qed
qed

lemma Bitmap_holds_call:
  "Bitmap_holds self bs \<Longrightarrow>
     \<exists>s1. Bitmap_call c self = Inr s1 \<and> Bitmap_holds s1 (bs @ BitmapCall_seq c)"
  using Bitmap_holds_Append Bitmap_holds_AppendMany_loop [of self bs 0]
  by (cases c) (simp_all add: Bitmap_AppendMany_def)

lemma Bitmap_holds_calls:
  "Bitmap_holds self bs \<Longrightarrow>
     \<exists>s1. Bitmap_calls cs self = Inr s1 \<and> Bitmap_holds s1 (bs @ concat (map BitmapCall_seq cs))"
proof (induction cs arbitrary: self bs)
  case Nil
  then show ?case by simp
next
  case (Cons c cs)
  from Bitmap_holds_call [OF Cons.prems, of c] obtain s1 where
    c: "Bitmap_call c self = Inr s1" and h: "Bitmap_holds s1 (bs @ BitmapCall_seq c)" by blast
  from Cons.IH [OF h] c show ?case by simp
qed

lemma length_BitmapCall_seq: "length (concat (map BitmapCall_seq cs)) = sum_list (map BitmapCall_bits cs)"
proof (induction cs)
  case Nil
  then show ?case by simp
next
  case (Cons c cs)
  then show ?case by (cases c) simp_all
qed


lemma sint32: "0 \<le> n \<Longrightarrow> n < 2 ^ 31 \<Longrightarrow> sint (word_of_int n :: 32 word) = n"
  by (simp add: sint_sbintrunc' signed_take_bit_int_eq_self)

section \<open>StackMapBuilder: proofs\<close>

lemma Builder_holds_call:
  assumes "Bitmap_holds (b self) bs"
  shows "\<exists>s1. Builder_call c self = Inr s1 \<and> Bitmap_holds (b s1) (bs @ BuilderCall_seq c)"
proof (cases c)
  case (AddField ptr)
  from Bitmap_holds_Append [OF assms, of "if ptr then 1 else 0"]
  show ?thesis using AddField
    by (cases ptr) (auto simp: StackMapBuilder_AddField_def)
next
  case (AddFields n ptr)
  from Bitmap_holds_AppendMany_loop [OF assms, of 0 n "if ptr then 1 else 0"]
  show ?thesis using AddFields
    by (cases ptr) (auto simp: StackMapBuilder_AddFields_def Bitmap_AppendMany_def)
qed

lemma Builder_holds_calls:
  "Bitmap_holds (b self) bs \<Longrightarrow>
     \<exists>s1. Builder_calls cs self = Inr s1
        \<and> Bitmap_holds (b s1) (bs @ concat (map BuilderCall_seq cs))"
proof (induction cs arbitrary: self bs)
  case Nil
  then show ?case by simp
next
  case (Cons c cs)
  from Builder_holds_call [OF Cons.prems, of c] obtain s1 where
    c: "Builder_call c self = Inr s1" and h: "Bitmap_holds (b s1) (bs @ BuilderCall_seq c)" by blast
  from Cons.IH [OF h] c show ?case by simp
qed

lemma length_BuilderCall_seq:
  "length (concat (map BuilderCall_seq cs)) = sum_list (map BuilderCall_bits cs)"
proof (induction cs)
  case Nil
  then show ?case by simp
next
  case (Cons c cs)
  then show ?case by (cases c) simp_all
qed

lemma Build_after_fresh:
  "\<exists>s1. Builder_calls cs StackMapBuilder_fresh = Inr s1
      \<and> Build_after cs StackMapBuilder_fresh = Inr (StackMapBuilder_Build s1)
      \<and> Bitmap_holds (b s1) (concat (map BuilderCall_seq cs))"
proof -
  have "Bitmap_holds (b StackMapBuilder_fresh) []"
    by (simp add: StackMapBuilder_fresh_def Bitmap_holds_empty)
  from Builder_holds_calls [OF this, of cs] show ?thesis
    by (auto simp: Build_after_def)
qed

lemma less_2p31: "n < 2 ^ 31 \<Longrightarrow> int n < 2 ^ 31"
  using of_nat_less_iff [of n "2 ^ 31", where ?'a = int] by simp

lemma AddField_seq: "concat (map BuilderCall_seq (map AddField bs)) = bs"
  by (induction bs) simp_all

subsection \<open>Bitmap.Set\<close>

text \<open>
  Claim C7, as the code has it. On a bitmap that meets its invariant, \<^verbatim>\<open>Set(i, bv)\<close> panics
  exactly when \<open>i \<ge> N\<close> or \<open>i < 0\<close>: the first by the explicit check, the second inside
  \<^verbatim>\<open>mark\<close>, where a negative \<open>i\<close> gives a negative index or a negative shift count. For
  \<open>0 \<le> i < N\<close> it returns, bit \<open>i\<close> is set exactly when \<open>bv \<noteq> 0\<close>, every other bit is as
  before, and \<open>N\<close> and the length of the slice are unchanged.
\<close>

theorem Bitmap_Set_in_range:
  assumes "Bitmap_wf self"
  shows "((\<exists>e. Bitmap_Set i bv self = Inl e) \<longleftrightarrow> (i \<ge> N self \<or> i < 0))
       \<and> (0 \<le> i \<and> i < N self \<longrightarrow>
            (\<exists>s1. Bitmap_Set i bv self = Inr s1 \<and> N s1 = N self
               \<and> length (B s1) = length (B self)
               \<and> (\<forall>j. bit_at (B s1) j = (if j = nat i then bv \<noteq> 0 else bit_at (B self) j))))"
proof (cases "0 \<le> i \<and> i < N self")
  case True
  then have r: "0 \<le> i" "i < 8 * int (length (B self))"
    using assms by (simp_all add: Bitmap_wf_def)
  from Bitmap_mark_Inr [OF r, of bv] True show ?thesis
    by (auto simp: Bitmap_Set_def)
next
  case False
  then show ?thesis
    by (auto simp: Bitmap_Set_def Bitmap_mark_neg)
qed

text \<open>Setting bit 1 of a three-bit bitmap.\<close>

theorem Bitmap_Set_in_range_witness:
  "Bitmap_wf \<lparr>N = 3, B = [0]\<rparr>
   \<and> (\<exists>s1. Bitmap_Set 1 1 \<lparr>N = 3, B = [0]\<rparr> = Inr s1 \<and> N s1 = 3 \<and> length (B s1) = 1
         \<and> bit_at (B s1) 1 \<and> \<not> bit_at (B s1) 0 \<and> \<not> bit_at (B s1) 2)"
proof -
  have w: "Bitmap_wf \<lparr>N = 3, B = [0]\<rparr>" by (simp add: Bitmap_wf_def)
  have z: "\<not> bit_at [0] 0" "\<not> bit_at [0] 2" by (simp_all add: bit_at_def)
  show ?thesis
    using w z Bitmap_Set_in_range [OF w, of 1 1] by auto
qed

text \<open>
  The claim as stated, "fails if and only if \<open>i \<ge> N\<close>", is false at \<open>i = -1\<close>: the index is
  below \<open>N\<close>, the check passes, and \<^verbatim>\<open>1 << (i % 8)\<close> panics with the shift count \<open>-1\<close>.
\<close>

theorem Bitmap_Set_negative_counterexample:
  "Bitmap_wf \<lparr>N = 1, B = [0]\<rparr>
   \<and> (- 1 :: int) < N \<lparr>N = 1, B = [0]\<rparr>
   \<and> Bitmap_Set (- 1) 1 \<lparr>N = 1, B = [0]\<rparr> = Inl RuntimeError"
  by (simp add: Bitmap_wf_def Bitmap_Set_def Bitmap_mark_def go_quot_def go_rem_def Let_def)

subsection \<open>Growth of the backing slice\<close>

text \<open>
  Claim C8. From the empty bitmap, any sequence of \<^verbatim>\<open>Append\<close> and \<^verbatim>\<open>AppendMany\<close> calls
  returns; if the calls append \<open>m\<close> bits in total then \<open>N = m\<close>, the slice holds
  \<open>(m + 7) div 8\<close> bytes, that is the ceiling of \<open>m / 8\<close>, and \<open>N \<le> 8 * len(B)\<close>; for
  \<open>m = 8 * k + 1\<close> the slice holds \<open>k + 1\<close> bytes. The invariant \<open>N \<le> 8 * len(B)\<close> holds
  after every call of the sequence, that is after each of its prefixes.
\<close>

theorem Bitmap_growth:
  "\<exists>s1. Bitmap_calls cs Bitmap_empty = Inr s1
      \<and> N s1 = int (sum_list (map BitmapCall_bits cs))
      \<and> length (B s1) = (sum_list (map BitmapCall_bits cs) + 7) div 8
      \<and> N s1 \<le> 8 * int (length (B s1))
      \<and> (\<forall>k. sum_list (map BitmapCall_bits cs) = 8 * k + 1 \<longrightarrow> length (B s1) = k + 1)
      \<and> (\<forall>j. \<exists>s2. Bitmap_calls (take j cs) Bitmap_empty = Inr s2
                  \<and> N s2 \<le> 8 * int (length (B s2)))"
proof -
  let ?m = "sum_list (map BitmapCall_bits cs)"
  have p: "\<exists>s2. Bitmap_calls (take j cs) Bitmap_empty = Inr s2
                  \<and> N s2 \<le> 8 * int (length (B s2))" for j
    using Bitmap_holds_calls [OF Bitmap_holds_empty, of "take j cs"] Bitmap_holds_wf
    by (fastforce simp: Bitmap_wf_def)
  from Bitmap_holds_calls [OF Bitmap_holds_empty, of cs] obtain s1 where
    c: "Bitmap_calls cs Bitmap_empty = Inr s1"
    and h: "Bitmap_holds s1 (concat (map BitmapCall_seq cs))" by auto
  have n: "N s1 = int ?m" using h by (simp add: Bitmap_holds_def length_BitmapCall_seq)
  have "int (length (B s1)) = (int ?m + 7) div 8"
    using h by (simp add: Bitmap_holds_def length_BitmapCall_seq)
  then have l: "length (B s1) = (?m + 7) div 8" by linarith
  have w: "N s1 \<le> 8 * int (length (B s1))"
    using Bitmap_holds_wf [OF h] by (simp add: Bitmap_wf_def)
  have k: "\<forall>k. ?m = 8 * k + 1 \<longrightarrow> length (B s1) = k + 1" using l by auto
  show ?thesis using c n l w k p by blast
qed

text \<open>Nine bits, one by \<^verbatim>\<open>Append\<close> and eight by \<^verbatim>\<open>AppendMany\<close>: two bytes.\<close>

theorem Bitmap_growth_witness:
  "\<exists>s1. Bitmap_calls [Append 1, AppendMany 8 0] Bitmap_empty = Inr s1
      \<and> N s1 = 9 \<and> length (B s1) = 2 \<and> N s1 \<le> 8 * int (length (B s1))"
  using Bitmap_growth [of "[Append 1, AppendMany 8 0]"] by auto

subsection \<open>StackMapBuilder.Build\<close>

text \<open>
  Claim C1, as the code has it. For every sequence of booleans \<open>b\<^sub>0 \<dots> b\<^bsub>n-1\<^esub>\<close> passed to
  \<^verbatim>\<open>AddField\<close> on a fresh builder, \<^verbatim>\<open>Build()\<close> returns a stack map with bitmap count
  \<open>N = 1\<close> and packed bit \<open>i\<close> equal to \<open>b\<^sub>i\<close> for every \<open>i < n\<close>. Its bit-length \<open>L\<close> is the
  low 32 bits of \<open>n\<close>, so \<open>L = n\<close> whenever \<open>n < 2 ^ 31\<close>.
\<close>

theorem StackMap_roundtrip:
  "\<exists>sm. Build_after (map AddField bs) StackMapBuilder_fresh = Inr sm
      \<and> sint (StackMap.N sm) = 1
      \<and> StackMap.L sm = word_of_int (int (length bs))
      \<and> (length bs < 2 ^ 31 \<longrightarrow> sint (StackMap.L sm) = int (length bs))
      \<and> (\<forall>i<length bs. bit_at (StackMap.B sm) i = bs ! i)"
proof -
  from Build_after_fresh [of "map AddField bs"] obtain s1 where
    r: "Build_after (map AddField bs) StackMapBuilder_fresh = Inr (StackMapBuilder_Build s1)"
    and h: "Bitmap_holds (b s1) bs" unfolding AddField_seq by blast
  have n: "N (b s1) = int (length bs)" and bits: "\<forall>i<length bs. bit_at (B (b s1)) i = bs ! i"
    using h by (simp_all add: Bitmap_holds_def)
  have l: "sint (word_of_int (int (length bs)) :: 32 word) = int (length bs)"
    if "length bs < 2 ^ 31"
  proof -
    have "int (length bs) < 2 ^ 31" using that by (rule less_2p31)
    then show ?thesis by (intro sint32) simp_all
  qed
  show ?thesis using r n bits l by (simp add: StackMapBuilder_Build_def)
qed

text \<open>Three fields: pointer, scalar, pointer.\<close>

theorem StackMap_roundtrip_witness:
  "length [True, False, True] < 2 ^ 31
   \<and> (\<exists>sm. Build_after [AddField True, AddField False, AddField True] StackMapBuilder_fresh = Inr sm
         \<and> sint (StackMap.N sm) = 1 \<and> sint (StackMap.L sm) = 3
         \<and> bit_at (StackMap.B sm) 0 \<and> \<not> bit_at (StackMap.B sm) 1 \<and> bit_at (StackMap.B sm) 2)"
proof -
  have l: "length [True, False, True] < 2 ^ 31" by simp
  from StackMap_roundtrip [of "[True, False, True]"] l obtain sm where
    r: "Build_after [AddField True, AddField False, AddField True] StackMapBuilder_fresh = Inr sm"
    and n: "sint (StackMap.N sm) = 1" and c: "sint (StackMap.L sm) = 3"
    and bits: "\<forall>i<3. bit_at (StackMap.B sm) i = [True, False, True] ! i" by auto
  from bits [rule_format, of 0] bits [rule_format, of 1] bits [rule_format, of 2]
  have "bit_at (StackMap.B sm) 0" "\<not> bit_at (StackMap.B sm) 1" "bit_at (StackMap.B sm) 2"
    by simp_all
  with r n c l show ?thesis by blast
qed

text \<open>
  \<open>L = n\<close> does not hold for every \<open>n\<close>: after \<open>2 ^ 31\<close> calls of \<^verbatim>\<open>AddField(false)\<close> the
  builder holds \<open>2 ^ 31\<close> bits in \<open>2 ^ 28\<close> bytes, and \<^verbatim>\<open>int32(self.b.N)\<close> stores
  \<open>L = - 2 ^ 31\<close>.
\<close>

theorem StackMap_length_wraps_counterexample:
  "\<exists>sm. Build_after (map AddField (replicate 2147483648 False)) StackMapBuilder_fresh = Inr sm
      \<and> sint (StackMap.L sm) = - 2147483648
      \<and> int (length (replicate 2147483648 False)) = 2147483648"
proof -
  from Build_after_fresh [of "map AddField (replicate 2147483648 False)"] obtain s1 where
    r: "Build_after (map AddField (replicate 2147483648 False)) StackMapBuilder_fresh
          = Inr (StackMapBuilder_Build s1)"
    and h: "Bitmap_holds (b s1) (replicate 2147483648 False)" unfolding AddField_seq by blast
  have "N (b s1) = 2147483648" using h by (simp add: Bitmap_holds_def)
  then have "sint (StackMap.L (StackMapBuilder_Build s1)) = - 2147483648"
    by (simp add: StackMapBuilder_Build_def)
  with r show ?thesis by simp
qed

text \<open>
  Claim C6, as the code has it. \<^verbatim>\<open>Build()\<close> on a builder that received any sequence of
  \<^verbatim>\<open>AddField\<close> and \<^verbatim>\<open>AddFields\<close> calls since it was fresh records as \<open>L\<close> the number of bits
  appended, one for each \<^verbatim>\<open>AddField\<close> call and \<open>max n 0\<close> for each \<^verbatim>\<open>AddFields(n, _)\<close> call,
  as long as that number is below \<open>2 ^ 31\<close>.
\<close>

theorem StackMap_length_counts_bits:
  assumes "sum_list (map BuilderCall_bits cs) < 2 ^ 31"
  shows "\<exists>sm. Build_after cs StackMapBuilder_fresh = Inr sm
           \<and> sint (StackMap.L sm) = int (sum_list (map BuilderCall_bits cs))"
proof -
  from Build_after_fresh [of cs] obtain s1 where
    r: "Build_after cs StackMapBuilder_fresh = Inr (StackMapBuilder_Build s1)"
    and h: "Bitmap_holds (b s1) (concat (map BuilderCall_seq cs))" by auto
  have n: "N (b s1) = int (sum_list (map BuilderCall_bits cs))"
    using h by (simp add: Bitmap_holds_def length_BuilderCall_seq)
  have "int (sum_list (map BuilderCall_bits cs)) < 2 ^ 31" using assms by (rule less_2p31)
  then have "sint (word_of_int (int (sum_list (map BuilderCall_bits cs))) :: 32 word)
               = int (sum_list (map BuilderCall_bits cs))"
    by (intro sint32) simp_all
  then show ?thesis using r n by (simp add: StackMapBuilder_Build_def)
qed

text \<open>One field, then three, then a call with a negative count that appends nothing.\<close>

theorem StackMap_length_counts_bits_witness:
  "sum_list (map BuilderCall_bits [AddField True, AddFields 3 False, AddFields (- 2) True]) < 2 ^ 31
   \<and> (\<exists>sm. Build_after [AddField True, AddFields 3 False, AddFields (- 2) True] StackMapBuilder_fresh = Inr sm
         \<and> sint (StackMap.L sm) = 4)"
proof -
  have l: "sum_list (map BuilderCall_bits [AddField True, AddFields 3 False, AddFields (- 2) True]) < 2 ^ 31"
    by simp
  from StackMap_length_counts_bits [OF l] l show ?thesis by simp
qed

text \<open>
  \<open>L\<close> is not the number of calls: one call \<^verbatim>\<open>AddFields(2, true)\<close> on a fresh builder gives
  \<open>L = 2\<close>.
\<close>

theorem StackMap_length_not_calls_counterexample:
  "Build_after [AddFields 2 True] StackMapBuilder_fresh
     = Inr \<lparr>StackMap.N = 1, StackMap.L = 2, StackMap.B = [3]\<rparr>
   \<and> sint (2 :: 32 word) \<noteq> int (length [AddFields 2 True])"
  by (simp add: Build_after_def StackMapBuilder_fresh_def StackMapBuilder_AddFields_def
      Bitmap_AppendMany_def Bitmap_Append_def Bitmap_grow_def Bitmap_mark_def Bitmap_empty_def
      go_quot_def go_rem_def StackMapBuilder_Build_def Let_def)


section \<open>TDCE: proofs\<close>

subsection \<open>Phase 3\<close>

lemma walk_flag:
  assumes "\<And>x d. f x d = (g x, d \<and> p x)"
  shows "walk f xs d = (map g xs, d \<and> list_all p xs)"
  by (induction xs arbitrary: d) (auto simp: assms)

lemma zero_slot_eq:
  "zero_slot R dead r d = (rewritten R dead r, d \<and> \<not> neutralized R dead r)"
  by (simp add: zero_slot_def rewritten_def neutralized_def)

lemma walk_zero_slot:
  "walk (zero_slot R dead) rs d
     = (map (rewritten R dead) rs, d \<and> list_all (\<lambda>r. \<not> neutralized R dead r) rs)"
  by (rule walk_flag) (rule zero_slot_eq)

lemma zero_phi_eq:
  "zero_phi R dead v d
     = (v\<lparr>PhiDefinitions := map (rewritten R dead) (PhiDefinitions v)\<rparr>,
        d \<and> list_all (\<lambda>r. \<not> neutralized R dead r) (PhiDefinitions v))"
  by (simp add: zero_phi_def walk_zero_slot)

lemma zero_node_eq:
  "zero_node R dead v d
     = (fst (zero_node R dead v True), d \<and> list_all (\<lambda>r. \<not> neutralized R dead r) (node_defs v))"
  by (simp add: zero_node_def node_defs_def walk_zero_slot split: option.splits)

lemma zero_node_defs:
  "node_defs (fst (zero_node R dead v True)) = map (rewritten R dead) (node_defs v)"
  by (simp add: zero_node_def node_defs_def walk_zero_slot split: option.splits)

lemma zero_node_uses:
  "node_uses (fst (zero_node R dead v True)) = node_uses v"
  by (simp add: zero_node_def node_uses_def walk_zero_slot split: option.splits)

lemma zero_node_Definitions:
  "Definitions (fst (zero_node R dead v True)) = map_option (map (rewritten R dead)) (Definitions v)"
  by (simp add: zero_node_def walk_zero_slot split: option.splits)

lemma zero_node_unchanged:
  "list_all (\<lambda>r. \<not> neutralized R dead r) (node_defs v) \<Longrightarrow> fst (zero_node R dead v True) = v"
  by (auto simp: zero_node_def node_defs_def walk_zero_slot rewritten_def list_all_iff
      map_idI split: option.splits)

lemma Phase3_block_eq:
  "Phase3_block R dead bb d
     = (fst (Phase3_block R dead bb True),
        d \<and> list_all (\<lambda>r. \<not> neutralized R dead r) (block_defs bb))"
proof -
  have p: "walk (zero_phi R dead) xs e
             = (map (\<lambda>v. v\<lparr>PhiDefinitions := map (rewritten R dead) (PhiDefinitions v)\<rparr>) xs,
                e \<and> list_all (\<lambda>v. list_all (\<lambda>r. \<not> neutralized R dead r) (PhiDefinitions v)) xs)" for xs e
    by (rule walk_flag) (rule zero_phi_eq)
  have n: "walk (zero_node R dead) xs e
             = (map (\<lambda>v. fst (zero_node R dead v True)) xs,
                e \<and> list_all (\<lambda>v. list_all (\<lambda>r. \<not> neutralized R dead r) (node_defs v)) xs)" for xs e
    by (rule walk_flag) (rule zero_node_eq)
  have t: "zero_node R dead (Term bb) e
             = (fst (zero_node R dead (Term bb) True),
                e \<and> list_all (\<lambda>r. \<not> neutralized R dead r) (node_defs (Term bb)))" for e
    by (rule zero_node_eq)
  show ?thesis
    unfolding Phase3_block_def p n
    by (subst (1 2) t) (auto simp: block_defs_def list_all_iff)
qed


lemma Phase3_block_fst:
  "fst (Phase3_block R dead bb True)
     = \<lparr>Phi = map (\<lambda>v. v\<lparr>PhiDefinitions := map (rewritten R dead) (PhiDefinitions v)\<rparr>) (Phi bb),
        Ins = map (\<lambda>v. fst (zero_node R dead v True)) (Ins bb),
        Term = fst (zero_node R dead (Term bb) True)\<rparr>"
proof -
  have p: "walk (zero_phi R dead) xs e
             = (map (\<lambda>v. v\<lparr>PhiDefinitions := map (rewritten R dead) (PhiDefinitions v)\<rparr>) xs,
                e \<and> list_all (\<lambda>v. list_all (\<lambda>r. \<not> neutralized R dead r) (PhiDefinitions v)) xs)" for xs e
    by (rule walk_flag) (rule zero_phi_eq)
  have n: "walk (zero_node R dead) xs e
             = (map (\<lambda>v. fst (zero_node R dead v True)) xs,
                e \<and> list_all (\<lambda>v. list_all (\<lambda>r. \<not> neutralized R dead r) (node_defs v)) xs)" for xs e
    by (rule walk_flag) (rule zero_node_eq)
  have t: "zero_node R dead (Term bb) e
             = (fst (zero_node R dead (Term bb) True),
                e \<and> list_all (\<lambda>r. \<not> neutralized R dead r) (node_defs (Term bb)))" for e
    by (rule zero_node_eq)
  show ?thesis
    unfolding Phase3_block_def p n
    by (subst t) simp
qed

lemma Phase3_block_defs:
  "block_defs (fst (Phase3_block R dead bb True)) = map (rewritten R dead) (block_defs bb)"
  by (simp add: Phase3_block_fst block_defs_def zero_node_defs map_concat comp_def)

lemma Phase3_block_uses:
  "block_uses (fst (Phase3_block R dead bb True)) = block_uses bb"
  by (simp add: Phase3_block_fst block_uses_def zero_node_uses comp_def)

lemma rewritten_unchanged:
  "list_all (\<lambda>r. \<not> neutralized R dead r) rs \<Longrightarrow> map (rewritten R dead) rs = rs"
  by (simp add: rewritten_def list_all_iff map_idI)

lemma Phase3_block_unchanged:
  assumes "list_all (\<lambda>r. \<not> neutralized R dead r) (block_defs bb)"
  shows "fst (Phase3_block R dead bb True) = bb"
proof -
  have p: "\<And>v. v \<in> set (Phi bb) \<Longrightarrow> list_all (\<lambda>r. \<not> neutralized R dead r) (PhiDefinitions v)"
    and i: "\<And>v. v \<in> set (Ins bb) \<Longrightarrow> list_all (\<lambda>r. \<not> neutralized R dead r) (node_defs v)"
    and t: "list_all (\<lambda>r. \<not> neutralized R dead r) (node_defs (Term bb))"
    using assms by (auto simp: block_defs_def list_all_iff)
  have "map (\<lambda>v. v\<lparr>PhiDefinitions := map (rewritten R dead) (PhiDefinitions v)\<rparr>) (Phi bb) = Phi bb"
    using p by (intro map_idI) (simp add: rewritten_unchanged)
  moreover have "map (\<lambda>v. fst (zero_node R dead v True)) (Ins bb) = Ins bb"
    using i by (intro map_idI) (simp add: zero_node_unchanged)
  ultimately show ?thesis
    by (simp add: Phase3_block_fst zero_node_unchanged [OF t])
qed

lemma walk_Phase3_block:
  "walk (Phase3_block R dead) cfg d
     = (Phase3 R dead cfg, d \<and> list_all (\<lambda>r. \<not> neutralized R dead r) (cfg_defs cfg))"
proof -
  have "walk (Phase3_block R dead) xs e
          = (map (\<lambda>bb. fst (Phase3_block R dead bb True)) xs,
             e \<and> list_all (\<lambda>bb. list_all (\<lambda>r. \<not> neutralized R dead r) (block_defs bb)) xs)" for xs e
    by (rule walk_flag) (rule Phase3_block_eq)
  then show ?thesis
    by (auto simp: Phase3_def cfg_defs_def list_all_iff)
qed

lemma Phase3_map:
  "Phase3 R dead cfg = map (\<lambda>bb. fst (Phase3_block R dead bb True)) cfg"
proof -
  have "walk (Phase3_block R dead) xs e
          = (map (\<lambda>bb. fst (Phase3_block R dead bb True)) xs,
             e \<and> list_all (\<lambda>bb. list_all (\<lambda>r. \<not> neutralized R dead r) (block_defs bb)) xs)" for xs e
    by (rule walk_flag) (rule Phase3_block_eq)
  then show ?thesis by (simp add: Phase3_def)
qed

lemma Phase3_defs: "cfg_defs (Phase3 R dead cfg) = map (rewritten R dead) (cfg_defs cfg)"
  by (simp add: Phase3_map cfg_defs_def map_concat comp_def Phase3_block_defs)

lemma Phase3_uses: "cfg_uses (Phase3 R dead cfg) = cfg_uses cfg"
  by (simp add: Phase3_map cfg_uses_def comp_def Phase3_block_uses)

lemma Phase3_unchanged:
  "list_all (\<lambda>r. \<not> neutralized R dead r) (cfg_defs cfg) \<Longrightarrow> Phase3 R dead cfg = cfg"
  unfolding Phase3_map
  by (intro map_idI Phase3_block_unchanged) (auto simp: cfg_defs_def list_all_iff)

subsection \<open>Phases 1 and 2\<close>

lemma mark_definitions_eq: "mark_definitions rs S = S \<union> set rs"
  unfolding mark_definitions_def by (induction rs arbitrary: S) auto

lemma mark_usages_eq: "mark_usages rs S = S - set rs"
  unfolding mark_usages_def by (induction rs arbitrary: S) auto

lemma mark_node_definitions_eq: "mark_node_definitions v S = S \<union> set (node_defs v)"
  by (simp add: mark_node_definitions_def node_defs_def mark_definitions_eq split: option.splits)

lemma mark_node_usages_eq: "mark_node_usages v S = S - set (node_uses v)"
  by (simp add: mark_node_usages_def node_uses_def mark_usages_eq split: option.splits)

lemma fold_union: "fold (\<lambda>x S. S \<union> set (f x)) xs S = S \<union> set (concat (map f xs))"
  by (induction xs arbitrary: S) auto

lemma fold_minus: "fold (\<lambda>x S. S - set (f x)) xs S = S - set (concat (map f xs))"
  by (induction xs arbitrary: S) auto

lemma Phase1_block_eq: "Phase1_block bb S = S \<union> set (block_defs bb)"
proof -
  have a: "(\<lambda>v. mark_definitions (PhiDefinitions v)) = (\<lambda>v S. S \<union> set (PhiDefinitions v))"
    by (simp add: fun_eq_iff mark_definitions_eq)
  have c: "mark_node_definitions = (\<lambda>v S. S \<union> set (node_defs v))"
    by (simp add: fun_eq_iff mark_node_definitions_eq)
  show ?thesis
    unfolding Phase1_block_def Let_def a
    unfolding c fold_union
    by (auto simp: block_defs_def)
qed

lemma Phase2_block_eq: "Phase2_block bb S = S - set (block_uses bb)"
proof -
  have a: "(\<lambda>v. mark_usages (PhiUsages v)) = (\<lambda>v S. S - set (PhiUsages v))"
    by (simp add: fun_eq_iff mark_usages_eq)
  have c: "mark_node_usages = (\<lambda>v S. S - set (node_uses v))"
    by (simp add: fun_eq_iff mark_node_usages_eq)
  show ?thesis
    unfolding Phase2_block_def Let_def a
    unfolding c fold_minus
    by (auto simp: block_uses_def)
qed

lemma Phase1_eq: "fold Phase1_block cfg S = S \<union> set (cfg_defs cfg)"
proof -
  have e: "Phase1_block = (\<lambda>bb S. S \<union> set (block_defs bb))"
    by (simp add: fun_eq_iff Phase1_block_eq)
  show ?thesis
    unfolding e fold_union cfg_defs_def ..
qed

lemma Phase2_eq: "fold Phase2_block cfg S = S - set (cfg_uses cfg)"
proof -
  have e: "Phase2_block = (\<lambda>bb S. S - set (block_uses bb))"
    by (simp add: fun_eq_iff Phase2_block_eq)
  show ?thesis
    unfolding e fold_minus cfg_uses_def ..
qed

lemma TDCE_round_eq:
  "TDCE_round R cfg
     = (map (Phase4_block R) (Phase3 R (dead_set cfg) cfg),
        list_all (\<lambda>r. \<not> neutralized R (dead_set cfg) r) (cfg_defs cfg))"
  by (simp add: TDCE_round_def Phase1_eq Phase2_eq walk_Phase3_block dead_set_def Let_def)


subsection \<open>Phase 4\<close>

lemma scan_live_iff: "scan_live R rs \<longleftrightarrow> (\<exists>r\<in>set rs. Kind R r \<noteq> K_zero R)"
  by (induction rs) auto

lemma keep_phi_iff: "keep_phi R v \<longleftrightarrow> (\<exists>r\<in>set (PhiDefinitions v). Kind R r \<noteq> K_zero R)"
  by (simp add: keep_phi_def scan_live_iff)

lemma keep_ins_iff:
  "keep_ins R v \<longleftrightarrow>
     (case Definitions v of None \<Rightarrow> True
      | Some rr \<Rightarrow> rr = [] \<or> (\<exists>r\<in>set rr. Kind R r \<noteq> K_zero R))"
  by (auto simp: keep_ins_def scan_live_iff split: option.splits)

lemma dropped_phi_no_live:
  "\<not> keep_phi R v \<Longrightarrow> filter (\<lambda>r. Kind R r \<noteq> K_zero R) (PhiDefinitions v) = []"
  by (auto simp: keep_phi_iff filter_empty_conv)

lemma dropped_ins_no_live:
  "\<not> keep_ins R v \<Longrightarrow> filter (\<lambda>r. Kind R r \<noteq> K_zero R) (node_defs v) = []"
  by (auto simp: keep_ins_iff node_defs_def filter_empty_conv split: option.splits)

lemma filter_concat_filter:
  assumes "\<And>x. x \<in> set xs \<Longrightarrow> \<not> p x \<Longrightarrow> filter q (f x) = []"
  shows "filter q (concat (map f (filter p xs))) = filter q (concat (map f xs))"
  using assms by (induction xs) auto

lemma Phase4_block_live:
  "filter (\<lambda>r. Kind R r \<noteq> K_zero R) (block_defs (Phase4_block R bb))
     = filter (\<lambda>r. Kind R r \<noteq> K_zero R) (block_defs bb)"
  by (simp add: Phase4_block_def block_defs_def
      filter_concat_filter [of _ "keep_phi R", OF dropped_phi_no_live]
      filter_concat_filter [of _ "keep_ins R", OF dropped_ins_no_live])

lemma Phase4_live: "live_defs R (map (Phase4_block R) cfg) = live_defs R cfg"
  by (induction cfg) (simp_all add: live_defs_def cfg_defs_def Phase4_block_live)

lemma Phase4_block_idem: "Phase4_block R (Phase4_block R bb) = Phase4_block R bb"
  by (simp add: Phase4_block_def)

lemma Phase4_compacted: "compacted R (map (Phase4_block R) cfg)"
  by (simp add: compacted_def Phase4_block_idem)

lemma Phase4_block_uses: "set (block_uses (Phase4_block R bb)) \<subseteq> set (block_uses bb)"
  by (auto simp: Phase4_block_def block_uses_def)

lemma Phase4_block_defs: "set (block_defs (Phase4_block R bb)) \<subseteq> set (block_defs bb)"
  by (auto simp: Phase4_block_def block_defs_def)

lemma Phase4_uses: "set (cfg_uses (map (Phase4_block R) cfg)) \<subseteq> set (cfg_uses cfg)"
  using Phase4_block_uses [of R] by (fastforce simp: cfg_uses_def)

lemma Phase4_defs: "set (cfg_defs (map (Phase4_block R) cfg)) \<subseteq> set (cfg_defs cfg)"
  using Phase4_block_defs [of R] by (fastforce simp: cfg_defs_def)

subsection \<open>One round\<close>

lemma TDCE_round_done_iff:
  "snd (TDCE_round R cfg) \<longleftrightarrow>
     (\<forall>r\<in>set (cfg_defs cfg). r \<in> set (cfg_uses cfg) \<or> Kind R r = K_zero R)"
  by (auto simp: TDCE_round_eq list_all_iff neutralized_def dead_set_def)

lemma TDCE_round_done:
  assumes "snd (TDCE_round R cfg)"
  shows "fst (TDCE_round R cfg) = map (Phase4_block R) cfg"
  using assms by (simp add: TDCE_round_eq Phase3_unchanged)

lemma TDCE_round_compacted: "compacted R (fst (TDCE_round R cfg))"
  by (simp add: TDCE_round_eq Phase4_compacted)

lemma TDCE_round_fixed:
  assumes "compacted R cfg" and "snd (TDCE_round R cfg)"
  shows "TDCE_round R cfg = (cfg, True)"
  using assms TDCE_round_done [OF assms(2)]
  by (simp add: compacted_def prod_eq_iff)

lemma live_after_Phase3:
  assumes "Reg_ok R"
  shows "filter (\<lambda>r. Kind R r \<noteq> K_zero R) (map (rewritten R dead) rs)
           = filter (\<lambda>r. \<not> neutralized R dead r) (filter (\<lambda>r. Kind R r \<noteq> K_zero R) rs)"
  using assms by (induction rs) (auto simp: rewritten_def neutralized_def Reg_ok_def)

lemma TDCE_round_live:
  assumes "Reg_ok R"
  shows "live_defs R (fst (TDCE_round R cfg))
           = filter (\<lambda>r. r \<in> set (cfg_uses cfg)) (live_defs R cfg)"
proof -
  have "live_defs R (fst (TDCE_round R cfg))
          = filter (\<lambda>r. \<not> neutralized R (dead_set cfg) r) (live_defs R cfg)"
    by (simp add: TDCE_round_eq Phase4_live) (simp add: live_defs_def Phase3_defs live_after_Phase3 [OF assms])
  also have "\<dots> = filter (\<lambda>r. r \<in> set (cfg_uses cfg)) (live_defs R cfg)"
    by (rule filter_cong) (auto simp: live_defs_def neutralized_def dead_set_def)
  finally show ?thesis .
qed

lemma TDCE_round_le:
  assumes "Reg_ok R"
  shows "live_count R (fst (TDCE_round R cfg)) \<le> live_count R cfg"
  by (simp add: live_count_def TDCE_round_live [OF assms])

lemma TDCE_round_less:
  assumes "Reg_ok R" and "\<not> snd (TDCE_round R cfg)"
  shows "live_count R (fst (TDCE_round R cfg)) < live_count R cfg"
proof -
  from assms(2) obtain r where "r \<in> set (cfg_defs cfg)" "r \<notin> set (cfg_uses cfg)" "Kind R r \<noteq> K_zero R"
    by (auto simp: TDCE_round_done_iff)
  then have "r \<in> set (live_defs R cfg)" "\<not> (r \<in> set (cfg_uses cfg))"
    by (simp_all add: live_defs_def)
  then have "length (filter (\<lambda>r. r \<in> set (cfg_uses cfg)) (live_defs R cfg)) < length (live_defs R cfg)"
    by (rule length_filter_less)
  then show ?thesis by (simp add: live_count_def TDCE_round_live [OF assms(1)])
qed

lemma TDCE_round_uses: "set (cfg_uses (fst (TDCE_round R cfg))) \<subseteq> set (cfg_uses cfg)"
  using Phase4_uses [of R "Phase3 R (dead_set cfg) cfg"]
  by (simp add: TDCE_round_eq Phase3_uses)

lemma TDCE_round_defs:
  "set (cfg_defs (fst (TDCE_round R cfg))) \<subseteq> set (cfg_defs cfg) \<union> Zero R ` set (cfg_defs cfg)"
proof -
  have "set (cfg_defs (fst (TDCE_round R cfg))) \<subseteq> set (map (rewritten R (dead_set cfg)) (cfg_defs cfg))"
    using Phase4_defs [of R "Phase3 R (dead_set cfg) cfg"]
    by (simp add: TDCE_round_eq Phase3_defs)
  also have "\<dots> \<subseteq> set (cfg_defs cfg) \<union> Zero R ` set (cfg_defs cfg)"
    by (auto simp: rewritten_def)
  finally show ?thesis .
qed


subsection \<open>The loop\<close>

lemma TDCE_Apply_done:
  "snd (TDCE_round R cfg) \<Longrightarrow> TDCE_Apply R cfg = Some (fst (TDCE_round R cfg))"
  by (subst TDCE_Apply.simps) (cases "TDCE_round R cfg", simp)

lemma TDCE_Apply_more:
  "\<not> snd (TDCE_round R cfg) \<Longrightarrow> TDCE_Apply R cfg = TDCE_Apply R (fst (TDCE_round R cfg))"
  by (subst TDCE_Apply.simps) (cases "TDCE_round R cfg", simp)

lemma exits_at_0: "snd (TDCE_round R cfg) \<Longrightarrow> exits_at R cfg 0"
  by (simp add: exits_at_def)

lemma exits_at_Suc:
  assumes "\<not> snd (TDCE_round R cfg)" and "exits_at R (fst (TDCE_round R cfg)) k"
  shows "exits_at R cfg (Suc k)"
proof -
  have "\<not> snd (TDCE_round R (rounds R j cfg))" if "j < Suc k" for j
  proof (cases j)
    case 0
    then show ?thesis using assms(1) by simp
  next
    case (Suc i)
    then show ?thesis using assms(2) that by (simp add: exits_at_def)
  qed
  then show ?thesis using assms(2) by (simp add: exits_at_def)
qed

lemma TDCE_Apply_exits:
  "exits_at R cfg k \<Longrightarrow> TDCE_Apply R cfg = Some (fst (TDCE_round R (rounds R k cfg)))"
proof (induction k arbitrary: cfg)
  case 0
  then show ?case by (simp add: exits_at_def TDCE_Apply_done)
next
  case (Suc k)
  from Suc.prems have n: "\<not> snd (TDCE_round R cfg)"
    by (auto simp: exits_at_def dest: spec [of _ 0])
  from Suc.prems have "exits_at R (fst (TDCE_round R cfg)) k"
    by (auto simp: exits_at_def dest: spec [of _ "Suc j" for j])
  from Suc.IH [OF this] show ?case by (simp add: TDCE_Apply_more [OF n])
qed

lemma TDCE_Apply_terminates:
  assumes "Reg_ok R"
  shows "\<exists>k\<le>live_count R cfg. exits_at R cfg k"
proof (induction "live_count R cfg" arbitrary: cfg rule: less_induct)
  case less
  show ?case
  proof (cases "snd (TDCE_round R cfg)")
    case True
    then show ?thesis using exits_at_0 by blast
  next
    case False
    let ?c = "fst (TDCE_round R cfg)"
    have lt: "live_count R ?c < live_count R cfg" by (rule TDCE_round_less [OF assms False])
    from less [OF lt] obtain k where k: "k \<le> live_count R ?c" and e: "exits_at R ?c k" by blast
    have "Suc k \<le> live_count R cfg" using k lt by simp
    with exits_at_Suc [OF False e] show ?thesis by blast
  qed
qed

lemma TDCE_Apply_Some_exits:
  "TDCE_Apply R cfg = Some cfg' \<Longrightarrow> \<exists>k. exits_at R cfg k \<and> cfg' = fst (TDCE_round R (rounds R k cfg))"
proof (induction rule: TDCE_Apply.raw_induct [rotated 1, consumes 1])
  case (1 self R cfg cfg')
  show ?case
  proof (cases "snd (TDCE_round R cfg)")
    case True
    with 1(2) have "cfg' = fst (TDCE_round R cfg)" by (cases "TDCE_round R cfg") simp
    with exits_at_0 [OF True] show ?thesis by (intro exI [of _ 0]) simp
  next
    case False
    with 1(2) have "self R (fst (TDCE_round R cfg)) = Some cfg'" by (cases "TDCE_round R cfg") simp
    from 1(1) [OF this] obtain k where
      "exits_at R (fst (TDCE_round R cfg)) k" "cfg' = fst (TDCE_round R (rounds R k (fst (TDCE_round R cfg))))"
      by blast
    with exits_at_Suc [OF False] show ?thesis by (intro exI [of _ "Suc k"]) simp
  qed
qed



lemmas TDCE_defs =
  TDCE_round_def Phase1_block_def Phase2_block_def Phase3_block_def Phase4_block_def
  mark_definitions_def mark_node_definitions_def mark_usages_def mark_node_usages_def
  zero_slot_def zero_phi_def zero_node_def keep_phi_def keep_ins_def example_regs_def Let_def

lemma round_A1:
  "TDCE_round example_regs scenario_A =
     ([\<lparr>Phi = [],
       Ins = [\<lparr>Definitions = Some [11], Usages = None\<rparr>],
       Term = \<lparr>Definitions = None, Usages = Some [11]\<rparr>\<rparr>], False)"
  by (simp add: scenario_A_def TDCE_defs)

lemma round_A2:
  "TDCE_round example_regs [\<lparr>Phi = [],
       Ins = [\<lparr>Definitions = Some [11], Usages = None\<rparr>],
       Term = \<lparr>Definitions = None, Usages = Some [11]\<rparr>\<rparr>] =
     ([\<lparr>Phi = [],
       Ins = [\<lparr>Definitions = Some [11], Usages = None\<rparr>],
       Term = \<lparr>Definitions = None, Usages = Some [11]\<rparr>\<rparr>], True)"
  by (simp add: TDCE_defs)

lemma Apply_A:
  "TDCE_Apply example_regs scenario_A =
     Some [\<lparr>Phi = [],
       Ins = [\<lparr>Definitions = Some [11], Usages = None\<rparr>],
       Term = \<lparr>Definitions = None, Usages = Some [11]\<rparr>\<rparr>]"
  by (simp add: TDCE_Apply_more round_A1 TDCE_Apply_done round_A2)

lemma round_P1:
  "TDCE_round example_regs prezeroed =
     ([\<lparr>Phi = [],
       Ins = [\<lparr>Definitions = Some [11], Usages = None\<rparr>],
       Term = \<lparr>Definitions = None, Usages = None\<rparr>\<rparr>], True)"
  by (simp add: prezeroed_def TDCE_defs)

lemma round_P2:
  "TDCE_round example_regs [\<lparr>Phi = [],
       Ins = [\<lparr>Definitions = Some [11], Usages = None\<rparr>],
       Term = \<lparr>Definitions = None, Usages = None\<rparr>\<rparr>] =
     ([\<lparr>Phi = [], Ins = [], Term = \<lparr>Definitions = None, Usages = None\<rparr>\<rparr>], False)"
  by (simp add: TDCE_defs)

subsection \<open>Graphs with nothing to compact\<close>

lemma rounds_compacted: "compacted R cfg \<Longrightarrow> compacted R (rounds R k cfg)"
  by (induction k arbitrary: cfg) (simp_all add: TDCE_round_compacted)

lemma TDCE_Apply_fixed_compacted:
  assumes "compacted R cfg" and "TDCE_Apply R cfg = Some cfg'"
  shows "TDCE_round R cfg' = (cfg', True)"
proof -
  from TDCE_Apply_Some_exits [OF assms(2)] obtain k where
    e: "exits_at R cfg k" and c: "cfg' = fst (TDCE_round R (rounds R k cfg))" by blast
  have d: "snd (TDCE_round R (rounds R k cfg))" using e by (simp add: exits_at_def)
  from TDCE_round_fixed [OF rounds_compacted [OF assms(1)] d] c show ?thesis by simp
qed

text \<open>
  If the first round neutralizes a register, the loop goes on from a graph that phase 4
  has just compacted.
\<close>

lemma TDCE_Apply_fixed:
  assumes "compacted R cfg \<or> \<not> snd (TDCE_round R cfg)" and "TDCE_Apply R cfg = Some cfg'"
  shows "TDCE_round R cfg' = (cfg', True)"
proof (cases "compacted R cfg")
  case True
  then show ?thesis using assms(2) by (rule TDCE_Apply_fixed_compacted)
next
  case False
  then have n: "\<not> snd (TDCE_round R cfg)" using assms(1) by blast
  have "TDCE_Apply R (fst (TDCE_round R cfg)) = Some cfg'"
    using assms(2) by (simp add: TDCE_Apply_more [OF n])
  with TDCE_round_compacted show ?thesis by (rule TDCE_Apply_fixed_compacted)
qed

lemma TDCE_Apply_returns:
  assumes "Reg_ok R"
  shows "\<exists>cfg'. TDCE_Apply R cfg = Some cfg'"
  using TDCE_Apply_terminates [OF assms, of cfg] TDCE_Apply_exits [of R cfg] by blast

lemma Reg_ok_example: "Reg_ok example_regs"
  by (simp add: Reg_ok_def example_regs_def)

subsection \<open>A round that only phase 4 changes\<close>

text \<open>
  Phase 3 clears \<^verbatim>\<open>done\<close> when it rewrites a register; phase 4 rewrites the Phi and
  instruction lists and leaves \<^verbatim>\<open>done\<close> as it is. When the graph holds, on entry, an
  instruction whose declared registers are all of the zero kind already, a round can
  drop that instruction, and with it the only read of a register, and end with \<^verbatim>\<open>done\<close>
  still set: the loop leaves although the graph has changed.
\<close>

text \<open>
  Claim C2 says that every register of a kind other than zero declared in the graph
  \<^verbatim>\<open>Apply\<close> returns is read somewhere in that graph. On \<open>prezeroed\<close>,
  \<^verbatim>\<open>[r11 = const 5; zero = neg r11; return]\<close>, the only round neutralizes nothing (\<open>r11\<close> is
  read by the second instruction, and the zero register is of the zero kind), phase 4
  drops the second instruction and the loop exits: the returned graph declares \<open>r11\<close>,
  which is not of the zero kind, and reads no register at all.
\<close>

theorem TDCE_Apply_prezeroed_unread:
  "TDCE_Apply example_regs prezeroed
     = Some [\<lparr>Phi = [],
              Ins = [\<lparr>Definitions = Some [11], Usages = None\<rparr>],
              Term = \<lparr>Definitions = None, Usages = None\<rparr>\<rparr>]
   \<and> cfg_defs [\<lparr>Phi = [],
              Ins = [\<lparr>Definitions = Some [11], Usages = None\<rparr>],
              Term = \<lparr>Definitions = None, Usages = None\<rparr>\<rparr>] = [11]
   \<and> Kind example_regs 11 \<noteq> K_zero example_regs
   \<and> cfg_uses [\<lparr>Phi = [],
              Ins = [\<lparr>Definitions = Some [11], Usages = None\<rparr>],
              Term = \<lparr>Definitions = None, Usages = None\<rparr>\<rparr>] = []"
  by (simp add: TDCE_Apply_done round_P1)
     (simp add: cfg_defs_def cfg_uses_def block_defs_def block_uses_def node_defs_def
        node_uses_def example_regs_def)

text \<open>
  Claim C4 says that a second \<^verbatim>\<open>Apply\<close> on the graph a first \<^verbatim>\<open>Apply\<close> returned rewrites
  nothing. On \<open>prezeroed\<close> the first \<^verbatim>\<open>Apply\<close> returns after one round in which phase 4
  dropped the instruction that read \<open>r11\<close>; the first round of a second \<^verbatim>\<open>Apply\<close> on the
  graph it returned neutralizes \<open>r11\<close> (\<^verbatim>\<open>done\<close> is cleared) and drops the last
  instruction, and the second \<^verbatim>\<open>Apply\<close> returns a block without instructions.
\<close>

theorem TDCE_Apply_prezeroed_second_run:
  "TDCE_Apply example_regs prezeroed
     = Some [\<lparr>Phi = [],
              Ins = [\<lparr>Definitions = Some [11], Usages = None\<rparr>],
              Term = \<lparr>Definitions = None, Usages = None\<rparr>\<rparr>]
   \<and> TDCE_round example_regs
         [\<lparr>Phi = [],
           Ins = [\<lparr>Definitions = Some [11], Usages = None\<rparr>],
           Term = \<lparr>Definitions = None, Usages = None\<rparr>\<rparr>]
       = ([\<lparr>Phi = [], Ins = [], Term = \<lparr>Definitions = None, Usages = None\<rparr>\<rparr>], False)
   \<and> TDCE_Apply example_regs
         [\<lparr>Phi = [],
           Ins = [\<lparr>Definitions = Some [11], Usages = None\<rparr>],
           Term = \<lparr>Definitions = None, Usages = None\<rparr>\<rparr>]
       = Some [\<lparr>Phi = [], Ins = [], Term = \<lparr>Definitions = None, Usages = None\<rparr>\<rparr>]"
proof -
  have r3: "TDCE_round example_regs
              [\<lparr>Phi = [], Ins = [], Term = \<lparr>Definitions = None, Usages = None\<rparr>\<rparr>]
            = ([\<lparr>Phi = [], Ins = [], Term = \<lparr>Definitions = None, Usages = None\<rparr>\<rparr>], True)"
    by (simp add: TDCE_defs)
  show ?thesis
    by (simp add: TDCE_Apply_done TDCE_Apply_more round_P1 round_P2 r3)
qed

subsection \<open>Compaction\<close>

text \<open>
  Claim C3. In a block whose Phi nodes each declare a register, phase 4 drops a Phi node
  or an instruction if and only if it declares at least one register and every register
  it declares is of the zero kind: the lists it leaves are the old ones, in order,
  without those entries. An instruction without the \<^verbatim>\<open>IrDefinitions\<close> capability or with
  an empty list of declared registers is therefore kept. The terminator is kept as it
  is, whatever it declares.
\<close>

theorem Phase4_block_keeps:
  assumes "Phi_declares bb"
  shows "Phi (Phase4_block R bb)
           = filter (\<lambda>v. \<not> (PhiDefinitions v \<noteq> []
                            \<and> (\<forall>r\<in>set (PhiDefinitions v). Kind R r = K_zero R))) (Phi bb)
       \<and> Ins (Phase4_block R bb)
           = filter (\<lambda>v. \<not> (\<exists>rr. Definitions v = Some rr \<and> rr \<noteq> []
                            \<and> (\<forall>r\<in>set rr. Kind R r = K_zero R))) (Ins bb)
       \<and> Term (Phase4_block R bb) = Term bb"
proof -
  have p: "filter (keep_phi R) (Phi bb)
             = filter (\<lambda>v. \<not> (PhiDefinitions v \<noteq> []
                            \<and> (\<forall>r\<in>set (PhiDefinitions v). Kind R r = K_zero R))) (Phi bb)"
    using assms by (intro filter_cong refl) (auto simp: keep_phi_iff Phi_declares_def)
  have i: "keep_ins R = (\<lambda>v. \<not> (\<exists>rr. Definitions v = Some rr \<and> rr \<noteq> []
                            \<and> (\<forall>r\<in>set rr. Kind R r = K_zero R)))"
    by (auto simp: fun_eq_iff keep_ins_iff split: option.splits)
  show ?thesis by (simp add: Phase4_block_def p i)
qed

text \<open>
  A block after phase 3: the first Phi node and the first instruction are dropped, the
  instruction with one live result, the one with no capability and the one with an empty
  list stay, and so does the terminator, whose only declared register is zero.
\<close>

theorem Phase4_block_keeps_witness:
  "Phi_declares
     \<lparr>Phi = [\<lparr>PhiDefinitions = [0], PhiUsages = [11, 12]\<rparr>,
             \<lparr>PhiDefinitions = [13], PhiUsages = [11, 12]\<rparr>],
      Ins = [\<lparr>Definitions = Some [0], Usages = Some [11]\<rparr>,
             \<lparr>Definitions = Some [0, 14], Usages = Some [11]\<rparr>,
             \<lparr>Definitions = None, Usages = Some [14]\<rparr>,
             \<lparr>Definitions = Some [], Usages = Some [13]\<rparr>],
      Term = \<lparr>Definitions = Some [0], Usages = Some [14]\<rparr>\<rparr>
   \<and> Phase4_block example_regs
     \<lparr>Phi = [\<lparr>PhiDefinitions = [0], PhiUsages = [11, 12]\<rparr>,
             \<lparr>PhiDefinitions = [13], PhiUsages = [11, 12]\<rparr>],
      Ins = [\<lparr>Definitions = Some [0], Usages = Some [11]\<rparr>,
             \<lparr>Definitions = Some [0, 14], Usages = Some [11]\<rparr>,
             \<lparr>Definitions = None, Usages = Some [14]\<rparr>,
             \<lparr>Definitions = Some [], Usages = Some [13]\<rparr>],
      Term = \<lparr>Definitions = Some [0], Usages = Some [14]\<rparr>\<rparr>
   = \<lparr>Phi = [\<lparr>PhiDefinitions = [13], PhiUsages = [11, 12]\<rparr>],
      Ins = [\<lparr>Definitions = Some [0, 14], Usages = Some [11]\<rparr>,
             \<lparr>Definitions = None, Usages = Some [14]\<rparr>,
             \<lparr>Definitions = Some [], Usages = Some [13]\<rparr>],
      Term = \<lparr>Definitions = Some [0], Usages = Some [14]\<rparr>\<rparr>"
proof -
  have d: "Phi_declares
     \<lparr>Phi = [\<lparr>PhiDefinitions = [0], PhiUsages = [11, 12]\<rparr>,
             \<lparr>PhiDefinitions = [13], PhiUsages = [11, 12]\<rparr>],
      Ins = [\<lparr>Definitions = Some [0], Usages = Some [11]\<rparr>,
             \<lparr>Definitions = Some [0, 14], Usages = Some [11]\<rparr>,
             \<lparr>Definitions = None, Usages = Some [14]\<rparr>,
             \<lparr>Definitions = Some [], Usages = Some [13]\<rparr>],
      Term = \<lparr>Definitions = Some [0], Usages = Some [14]\<rparr>\<rparr>"
    by (simp add: Phi_declares_def)
  show ?thesis
    using d Phase4_block_keeps [OF d, of example_regs]
    by (simp add: example_regs_def BasicBlock.equality)
qed

subsection \<open>Termination\<close>

lemma TDCE_round_card_le:
  assumes "Reg_ok R"
  shows "card (set (live_defs R (fst (TDCE_round R cfg)))) \<le> card (set (live_defs R cfg))"
  by (rule card_mono) (simp_all add: TDCE_round_live [OF assms])

lemma TDCE_round_card_less:
  assumes "Reg_ok R" and "\<not> snd (TDCE_round R cfg)"
  shows "card (set (live_defs R (fst (TDCE_round R cfg)))) < card (set (live_defs R cfg))"
proof -
  from assms(2) obtain r where "r \<in> set (cfg_defs cfg)" "r \<notin> set (cfg_uses cfg)" "Kind R r \<noteq> K_zero R"
    by (auto simp: TDCE_round_done_iff)
  then have "r \<in> set (live_defs R cfg)" "r \<notin> set (live_defs R (fst (TDCE_round R cfg)))"
    by (simp_all add: TDCE_round_live [OF assms(1)]) (simp add: live_defs_def)
  moreover have "set (live_defs R (fst (TDCE_round R cfg))) \<subseteq> set (live_defs R cfg)"
    by (simp add: TDCE_round_live [OF assms(1)])
  ultimately have "set (live_defs R (fst (TDCE_round R cfg))) \<subset> set (live_defs R cfg)"
    by blast
  then show ?thesis by (intro psubset_card_mono) simp_all
qed

text \<open>
  Claim C5. For a register type whose \<^verbatim>\<open>Zero()\<close> is of the zero kind, \<^verbatim>\<open>Apply\<close> returns on
  every graph, after at most one round more than the graph has declared slots holding
  a register of another kind, and it leaves in the first round that ends with \<^verbatim>\<open>done\<close>
  set. \<^verbatim>\<open>done\<close> is set at the end of a round exactly when phase 3 found no declared
  register that is both unread and of another kind than zero. No round brings in a
  register: the registers of a kind other than zero declared after a round were declared
  before it, every declared register was declared before or is the \<^verbatim>\<open>Zero()\<close> of one that
  was, and every register read was read before. The number of declared registers of a
  kind other than zero, counted by slots or as distinct registers, never goes up in a
  round, and goes down in every round that does not end with \<^verbatim>\<open>done\<close> set.
\<close>

theorem TDCE_Apply_terminates_in_rounds:
  assumes "Reg_ok R"
  shows "(\<exists>k\<le>live_count R cfg. exits_at R cfg k
            \<and> TDCE_Apply R cfg = Some (fst (TDCE_round R (rounds R k cfg))))
       \<and> (\<forall>c. live_count R (fst (TDCE_round R c)) \<le> live_count R c
              \<and> card (set (live_defs R (fst (TDCE_round R c)))) \<le> card (set (live_defs R c)))
       \<and> (\<forall>c. \<not> snd (TDCE_round R c) \<longrightarrow>
                live_count R (fst (TDCE_round R c)) < live_count R c
              \<and> card (set (live_defs R (fst (TDCE_round R c)))) < card (set (live_defs R c)))
       \<and> (\<forall>c. set (live_defs R (fst (TDCE_round R c))) \<subseteq> set (live_defs R c)
              \<and> set (cfg_defs (fst (TDCE_round R c))) \<subseteq> set (cfg_defs c) \<union> Zero R ` set (cfg_defs c)
              \<and> set (cfg_uses (fst (TDCE_round R c))) \<subseteq> set (cfg_uses c))
       \<and> (\<forall>c. snd (TDCE_round R c) \<longleftrightarrow>
                (\<forall>r\<in>set (cfg_defs c). r \<in> set (cfg_uses c) \<or> Kind R r = K_zero R))"
proof -
  from TDCE_Apply_terminates [OF assms, of cfg] obtain k where
    k: "k \<le> live_count R cfg" and e: "exits_at R cfg k" by blast
  have a: "\<exists>k\<le>live_count R cfg. exits_at R cfg k
            \<and> TDCE_Apply R cfg = Some (fst (TDCE_round R (rounds R k cfg)))"
    using k e TDCE_Apply_exits [OF e] by blast
  have l: "set (live_defs R (fst (TDCE_round R c))) \<subseteq> set (live_defs R c)" for c
    by (simp add: TDCE_round_live [OF assms])
  have b: "\<forall>c. live_count R (fst (TDCE_round R c)) \<le> live_count R c
              \<and> card (set (live_defs R (fst (TDCE_round R c)))) \<le> card (set (live_defs R c))"
    using TDCE_round_le [OF assms] TDCE_round_card_le [OF assms] by blast
  have c: "\<forall>c. \<not> snd (TDCE_round R c) \<longrightarrow>
                live_count R (fst (TDCE_round R c)) < live_count R c
              \<and> card (set (live_defs R (fst (TDCE_round R c)))) < card (set (live_defs R c))"
    using TDCE_round_less [OF assms] TDCE_round_card_less [OF assms] by blast
  have d: "\<forall>c. set (live_defs R (fst (TDCE_round R c))) \<subseteq> set (live_defs R c)
              \<and> set (cfg_defs (fst (TDCE_round R c))) \<subseteq> set (cfg_defs c) \<union> Zero R ` set (cfg_defs c)
              \<and> set (cfg_uses (fst (TDCE_round R c))) \<subseteq> set (cfg_uses c)"
    using l TDCE_round_defs [of R] TDCE_round_uses [of R] by blast
  have f: "\<forall>c. snd (TDCE_round R c) \<longleftrightarrow>
                (\<forall>r\<in>set (cfg_defs c). r \<in> set (cfg_uses c) \<or> Kind R r = K_zero R)"
    using TDCE_round_done_iff [of R] by blast
  from a b c d f show ?thesis by (intro conjI)
qed

text \<open>
  Scenario A has two declared slots; the first round neutralizes \<open>r12\<close> and the loop
  leaves within three rounds.
\<close>

theorem TDCE_Apply_terminates_in_rounds_witness:
  "Reg_ok example_regs
   \<and> (\<exists>k\<le>2. exits_at example_regs scenario_A k
         \<and> TDCE_Apply example_regs scenario_A
             = Some (fst (TDCE_round example_regs (rounds example_regs k scenario_A))))
   \<and> \<not> snd (TDCE_round example_regs scenario_A)
   \<and> live_count example_regs (fst (TDCE_round example_regs scenario_A))
       < live_count example_regs scenario_A"
proof -
  note t = TDCE_Apply_terminates_in_rounds [OF Reg_ok_example, of scenario_A]
  have n: "\<not> snd (TDCE_round example_regs scenario_A)" by (simp add: round_A1)
  have c: "live_count example_regs scenario_A = 2"
    by (simp add: live_count_def live_defs_def cfg_defs_def block_defs_def node_defs_def
        scenario_A_def example_regs_def)
  from t have a: "\<exists>k\<le>2. exits_at example_regs scenario_A k
         \<and> TDCE_Apply example_regs scenario_A
             = Some (fst (TDCE_round example_regs (rounds example_regs k scenario_A)))"
    unfolding c by (rule conjunct1)
  from t have "\<forall>c. \<not> snd (TDCE_round example_regs c) \<longrightarrow>
      live_count example_regs (fst (TDCE_round example_regs c)) < live_count example_regs c"
    by blast
  with n have l: "live_count example_regs (fst (TDCE_round example_regs scenario_A))
       < live_count example_regs scenario_A" by blast
  show ?thesis using Reg_ok_example a n l by blast
qed

section \<open>Link and SetLinker: proofs\<close>

text \<open>
  Claim C9. After \<^verbatim>\<open>SetLinker\<close> has installed a linker, \<^verbatim>\<open>Link(p)\<close> is the result of that
  linker's \<^verbatim>\<open>Link(p)\<close>; in the state the process starts in, where none has been
  installed, it is \<^verbatim>\<open>link_emu(p)\<close>.
\<close>

theorem Link_dispatch:
  "Link link_emu (SetLinker (Some l) st) p = l p
   \<and> Link link_emu encoder_init p = link_emu p"
  by (simp add: Link_def SetLinker_def encoder_init_def)

lemma SetLinker_calls_linker: "linker (SetLinker_calls vs st) = last (linker st # vs)"
  unfolding SetLinker_calls_def
  by (induction vs arbitrary: st) (simp_all add: SetLinker_def)

text \<open>
  Claim C10. \<^verbatim>\<open>SetLinker\<close> is an assignment: any sequence of calls, nil arguments
  included, from any state ends in a state, and the variable then holds the argument of
  the last call. \<^verbatim>\<open>Link\<close> after the sequence delegates to the linker of the last call if
  that argument was not nil, and is \<^verbatim>\<open>link_emu\<close> if it was nil, whatever was installed
  before.
\<close>

theorem SetLinker_most_recent:
  "linker (SetLinker_calls vs st) = last (linker st # vs)
   \<and> Link link_emu (SetLinker_calls (vs @ [v]) st) p
       = (case v of None \<Rightarrow> link_emu p | Some l \<Rightarrow> l p)
   \<and> Link link_emu (SetLinker_calls (vs @ [Some l]) st) p = l p
   \<and> Link link_emu (SetLinker_calls (vs @ [None]) st) p = link_emu p"
  by (simp add: SetLinker_calls_linker Link_def)

end
